theory Spec2Isabelle
  imports Main
begin

section \<open>JavaScript values seen by lib/iterator.js\<close>

text \<open>
  The library never computes with the values it transports: it compares them with
  \<^verbatim>\<open>===\<close>, tests them with the global \<^verbatim>\<open>isNaN\<close>, and probes them for
  \<^verbatim>\<open>[Symbol.iterator]\<close>. The value universe below is what those three operations
  distinguish. Numbers are the integer-valued ones and NaN; strings are ASCII; arrays are
  immutable during a traversal; \<open>JObj n\<close> is a plain object (no \<^verbatim>\<open>valueOf\<close>,
  \<^verbatim>\<open>toString\<close> or \<^verbatim>\<open>Symbol.iterator\<close> of its own) whose identity is \<open>n\<close>.
  An array value stands for one array object of its own: two array values are never the same
  object, so an object that must occur twice by identity is a \<open>JObj\<close>.
\<close>

datatype jsval =
    JUndefined
  | JNull
  | JBool bool
  | JNum int
  | JNaN
  | JStr string
  | JArr "jsval list"
  | JObj nat

text \<open>The exceptions the code can raise, by the place that raises them.\<close>

datatype error =
    NotIterable          \<comment> \<open>\<^verbatim>\<open>TypeError('Base is not Iterable')\<close>, line 7\<close>
  | ReduceNoInitial      \<comment> \<open>\<^verbatim>\<open>TypeError('Reduce of consumed iterator with no initial value')\<close>, line 67\<close>
  | NullishProperty      \<comment> \<open>the engine's TypeError for a property read on \<^verbatim>\<open>null\<close> or \<^verbatim>\<open>undefined\<close>\<close>
  | InvalidArrayLength   \<comment> \<open>the engine's RangeError of \<^verbatim>\<open>new Array(n)\<close>\<close>

subsection \<open>Strict equality\<close>

fun strict_eq :: "jsval \<Rightarrow> jsval \<Rightarrow> bool" where
  "strict_eq JUndefined JUndefined = True"
| "strict_eq JNull JNull = True"
| "strict_eq (JBool a) (JBool b) = (a = b)"
| "strict_eq (JNum a) (JNum b) = (a = b)"
| "strict_eq (JStr a) (JStr b) = (a = b)"
| "strict_eq (JObj a) (JObj b) = (a = b)"
| "strict_eq _ _ = False"

subsection \<open>The global isNaN: ToNumber, then the NaN test\<close>

definition is_ws :: "char \<Rightarrow> bool" where
  "is_ws c = (c \<in> set [CHR 0x09, CHR 0x0A, CHR 0x0B, CHR 0x0C, CHR 0x0D, CHR '' ''])"

definition is_digit :: "char \<Rightarrow> bool" where
  "is_digit c = (c \<in> set ''0123456789'')"

definition trim :: "string \<Rightarrow> string" where
  "trim s = rev (dropWhile is_ws (rev (dropWhile is_ws s)))"

text \<open>ExponentPart, or nothing: \<^verbatim>\<open>[eE][+-]?[0-9]+\<close>.\<close>

definition exponent_part_opt :: "string \<Rightarrow> bool" where
  "exponent_part_opt s =
     (case s of
        [] \<Rightarrow> True
      | c # r \<Rightarrow>
          (c = CHR ''e'' \<or> c = CHR ''E'') \<and>
          (let ds = (case r of [] \<Rightarrow> [] | d # r2 \<Rightarrow> if d = CHR ''+'' \<or> d = CHR ''-'' then r2 else r)
           in ds \<noteq> [] \<and> list_all is_digit ds))"

text \<open>StrUnsignedDecimalLiteral of the StringToNumber grammar.\<close>

definition str_unsigned_decimal :: "string \<Rightarrow> bool" where
  "str_unsigned_decimal s =
     (s = ''Infinity'' \<or>
      (let ip = takeWhile is_digit s; r = dropWhile is_digit s
       in case r of
            c # r1 \<Rightarrow>
              if c = CHR ''.''
              then (let fp = takeWhile is_digit r1; r2 = dropWhile is_digit r1
                    in (ip \<noteq> [] \<or> fp \<noteq> []) \<and> exponent_part_opt r2)
              else ip \<noteq> [] \<and> exponent_part_opt r
          | [] \<Rightarrow> ip \<noteq> []))"

text \<open>NonDecimalIntegerLiteral: \<^verbatim>\<open>0x\<close>, \<^verbatim>\<open>0o\<close>, \<^verbatim>\<open>0b\<close> and their digits, unsigned.\<close>

definition str_non_decimal :: "string \<Rightarrow> bool" where
  "str_non_decimal s =
     (case s of
        z # x # ds \<Rightarrow>
          z = CHR ''0'' \<and> ds \<noteq> [] \<and>
          ((x \<in> set ''xX'' \<and> list_all (\<lambda>c. c \<in> set ''0123456789abcdefABCDEF'') ds) \<or>
           (x \<in> set ''oO'' \<and> list_all (\<lambda>c. c \<in> set ''01234567'') ds) \<or>
           (x \<in> set ''bB'' \<and> list_all (\<lambda>c. c \<in> set ''01'') ds))
      | _ \<Rightarrow> False)"

text \<open>Whether StringToNumber gives NaN: the trimmed string is neither empty (which is 0) nor
  a StrNumericLiteral.\<close>

definition string_is_nan :: "string \<Rightarrow> bool" where
  "string_is_nan s =
     (let t = trim s;
          u = (case t of [] \<Rightarrow> [] | c # r \<Rightarrow> if c = CHR ''+'' \<or> c = CHR ''-'' then r else t)
      in \<not> (t = [] \<or> str_non_decimal t \<or> str_unsigned_decimal u))"

fun digits_of_nat :: "nat \<Rightarrow> string" where
  "digits_of_nat n =
     (if n < 10 then [''0123456789'' ! n]
      else digits_of_nat (n div 10) @ [''0123456789'' ! (n mod 10)])"

fun join_comma :: "string list \<Rightarrow> string" where
  "join_comma [] = []"
| "join_comma [s] = s"
| "join_comma (s # t # r) = s @ '','' @ join_comma (t # r)"

text \<open>ToString, as \<^verbatim>\<open>Array.prototype.join\<close> uses it on the way to a number: an
  \<^verbatim>\<open>undefined\<close> or \<^verbatim>\<open>null\<close> element of an array prints as the empty string.\<close>

fun ToString :: "jsval \<Rightarrow> string" where
  "ToString JUndefined = ''undefined''"
| "ToString JNull = ''null''"
| "ToString (JBool b) = (if b then ''true'' else ''false'')"
| "ToString (JNum n) = (if n < 0 then CHR ''-'' # digits_of_nat (nat (- n)) else digits_of_nat (nat n))"
| "ToString JNaN = ''NaN''"
| "ToString (JStr s) = s"
| "ToString (JArr xs) =
     join_comma (map (\<lambda>x. if x = JUndefined \<or> x = JNull then [] else ToString x) xs)"
| "ToString (JObj n) = ''[object Object]''"

fun isNaN :: "jsval \<Rightarrow> bool" where
  "isNaN JUndefined = True"
| "isNaN JNull = False"
| "isNaN (JBool b) = False"
| "isNaN (JNum n) = False"
| "isNaN JNaN = True"
| "isNaN (JStr s) = string_is_nan s"
| "isNaN (JArr xs) = string_is_nan (ToString (JArr xs))"
| "isNaN (JObj n) = True"


section \<open>The pull protocol\<close>

text \<open>
  An iterator result object \<^verbatim>\<open>{ done, value }\<close>. A call of \<^verbatim>\<open>next()\<close> on a
  cursor in state \<open>c\<close> either does not return (\<open>None\<close>) or leaves the cursor in a new
  state and returns a result object or throws. A cursor is a state together with its
  \<^verbatim>\<open>next\<close>; the dynamic dispatch of \<^verbatim>\<open>this.base.next()\<close> is the parameter
  \<open>base_next\<close> of each adaptor below.
\<close>

record iter_result =
  r_done :: bool
  r_value :: jsval

type_synonym 'r completion = "error + 'r"

type_synonym ('r, 'c) call = "('r completion \<times> 'c) option"

type_synonym 'c pull = "'c \<Rightarrow> (iter_result, 'c) call"

definition exhausted :: iter_result where
  "exhausted = \<lparr>r_done = True, r_value = JUndefined\<rparr>"

definition produced :: "jsval \<Rightarrow> iter_result" where
  "produced v = \<lparr>r_done = False, r_value = v\<rparr>"

subsection \<open>The iterators of arrays and strings\<close>

text \<open>
  The read \<^verbatim>\<open>v[Symbol.iterator]\<close>: it throws on \<^verbatim>\<open>undefined\<close> and
  \<^verbatim>\<open>null\<close>, is \<^verbatim>\<open>undefined\<close> on a number, a boolean and a plain object
  (\<open>None\<close>), and is the method of an array or a string, given here by the elements the
  iterator it returns will produce: the elements of the array, the characters of the string.
\<close>

fun Symbol_iterator :: "jsval \<Rightarrow> (jsval list) option completion" where
  "Symbol_iterator JUndefined = Inl NullishProperty"
| "Symbol_iterator JNull = Inl NullishProperty"
| "Symbol_iterator (JStr s) = Inr (Some (map (\<lambda>c. JStr [c]) s))"
| "Symbol_iterator (JArr xs) = Inr (Some xs)"
| "Symbol_iterator _ = Inr None"

text \<open>The state of an array or string iterator is what it has still to produce; once it has
  reported exhaustion it reports it for ever.\<close>

type_synonym ArrayIterator = "jsval list"

fun ArrayIterator_next :: "ArrayIterator \<Rightarrow> iter_result \<times> ArrayIterator" where
  "ArrayIterator_next [] = (exhausted, [])"
| "ArrayIterator_next (x # xs) = (produced x, xs)"

subsection \<open>toIterator (lines 5-10)\<close>

text \<open>
  What the library is handed as a sequence is a value, or an object with a cursor's
  \<^verbatim>\<open>next\<close> that returns itself from \<^verbatim>\<open>[Symbol.iterator]()\<close>, such as an
  \<^verbatim>\<open>Iterator\<close> of this library; \<open>'t\<close> is the state of such an object.
\<close>

datatype 't iterable = OfValue jsval | OfCursor 't

datatype 't cursor = ValueCursor ArrayIterator | ObjectCursor 't

fun toIterator :: "'t iterable \<Rightarrow> 't cursor completion" where
  "toIterator (OfValue v) =
     (case Symbol_iterator v of
        Inl e \<Rightarrow> Inl e
      | Inr None \<Rightarrow> Inl NotIterable
      | Inr (Some xs) \<Rightarrow> Inr (ValueCursor xs))"
| "toIterator (OfCursor t) = Inr (ObjectCursor t)"

fun cursor_next :: "'t pull \<Rightarrow> 't cursor pull" where
  "cursor_next obj_next (ValueCursor a) =
     (case ArrayIterator_next a of (r, a') \<Rightarrow> Some (Inr r, ValueCursor a'))"
| "cursor_next obj_next (ObjectCursor t) =
     (case obj_next t of
        None \<Rightarrow> None
      | Some (r, t') \<Rightarrow> Some (r, ObjectCursor t'))"

text \<open>\<^verbatim>\<open>iterators.map(toIterator)\<close>: the conversions run in order, the first that throws
  ends the map.\<close>

fun map_toIterator :: "'t iterable list \<Rightarrow> 't cursor list completion" where
  "map_toIterator [] = Inr []"
| "map_toIterator (x # xs) =
     (case toIterator x of
        Inl e \<Rightarrow> Inl e
      | Inr c \<Rightarrow> (case map_toIterator xs of Inl e \<Rightarrow> Inl e | Inr cs \<Rightarrow> Inr (c # cs)))"

section \<open>class Iterator (lines 12-149)\<close>

text \<open>
  The field \<^verbatim>\<open>base\<close> is what \<^verbatim>\<open>toIterator\<close> returned. For an
  \<^verbatim>\<open>Iterator\<close> made by \<^verbatim>\<open>iter(source)\<close> it is the cursor of the source. The
  subclasses are only constructed by the methods \<^verbatim>\<open>map\<close>, \<^verbatim>\<open>filter\<close>, ...
  (lines 111-141), which pass \<^verbatim>\<open>this\<close>, and an \<^verbatim>\<open>Iterator\<close> is its own
  iterator (lines 17-19): there \<^verbatim>\<open>base\<close> is the upstream \<^verbatim>\<open>Iterator\<close>
  itself, of whatever class, with state \<open>'s\<close> and its \<^verbatim>\<open>next\<close> as \<open>base_next\<close>.
\<close>

record 'b Iterator =
  base :: 'b

definition Iterator_new :: "'t iterable \<Rightarrow> 't cursor Iterator completion" where
  "Iterator_new b = (case toIterator b of Inl e \<Rightarrow> Inl e | Inr c \<Rightarrow> Inr \<lparr>base = c\<rparr>)"

text \<open>\<^verbatim>\<open>iter(base)\<close> on a value (line 332).\<close>

definition iter :: "jsval \<Rightarrow> unit cursor Iterator completion" where
  "iter v = Iterator_new (OfValue v)"

text \<open>\<^verbatim>\<open>next() { return this.base.next(); }\<close>\<close>

definition Iterator_next :: "'t pull \<Rightarrow> 't cursor Iterator pull" where
  "Iterator_next obj_next this =
     (case cursor_next obj_next (base this) of
        None \<Rightarrow> None
      | Some (r, b') \<Rightarrow> Some (r, this\<lparr>base := b'\<rparr>))"

text \<open>Where every source is a value, no object's \<^verbatim>\<open>next\<close> is ever called; the
  parameter for it is then the \<^verbatim>\<open>next\<close> of an object that has nothing to produce.\<close>

definition no_next :: "unit pull" where
  "no_next u = Some (Inr exhausted, u)"

definition array_next :: "unit cursor Iterator pull" where
  "array_next = Iterator_next no_next"

subsection \<open>Terminal operations\<close>

text \<open>
  Each terminal operation runs \<^verbatim>\<open>for (const value of this)\<close>: it calls
  \<^verbatim>\<open>this.next()\<close>, which is the \<^verbatim>\<open>next\<close> of the subclass, until a result has
  \<^verbatim>\<open>done\<close>, or the body returns. \<open>nxt\<close> is that \<^verbatim>\<open>next\<close> and \<open>this\<close>
  the state of the whole object. Callbacks are functions of the value: a predicate is the
  truth of what it returns, and \<^verbatim>\<open>thisArg\<close> has no part.
\<close>

partial_function (option) Iterator_includes :: "'c pull \<Rightarrow> jsval \<Rightarrow> 'c \<Rightarrow> (bool, 'c) call" where
  "Iterator_includes nxt element this =
     (case nxt this of
        None \<Rightarrow> None
      | Some (Inl e, this') \<Rightarrow> Some (Inl e, this')
      | Some (Inr r, this') \<Rightarrow>
          if r_done r then Some (Inr False, this')
          else if strict_eq (r_value r) element \<or> (isNaN (r_value r) \<and> isNaN element)
               then Some (Inr True, this')
               else Iterator_includes nxt element this')"

declare Iterator_includes.simps [code]

text \<open>The loop of \<^verbatim>\<open>reduce\<close> (lines 74-77), from the accumulator \<open>result\<close>.\<close>

partial_function (option) reduce_loop ::
  "'c pull \<Rightarrow> (jsval \<Rightarrow> jsval \<Rightarrow> jsval) \<Rightarrow> jsval \<Rightarrow> 'c \<Rightarrow> (jsval, 'c) call" where
  "reduce_loop nxt reducer result this =
     (case nxt this of
        None \<Rightarrow> None
      | Some (Inl e, this') \<Rightarrow> Some (Inl e, this')
      | Some (Inr r, this') \<Rightarrow>
          if r_done r then Some (Inr result, this')
          else reduce_loop nxt reducer (reducer result (r_value r)) this')"

declare reduce_loop.simps [code]

text \<open>An argument that the caller leaves out is \<open>None\<close>; the parameter is then
  \<^verbatim>\<open>undefined\<close>, as it is when the caller passes \<^verbatim>\<open>undefined\<close>.\<close>

definition parameter :: "jsval option \<Rightarrow> jsval" where
  "parameter arg = (case arg of None \<Rightarrow> JUndefined | Some v \<Rightarrow> v)"

definition Iterator_reduce ::
  "'c pull \<Rightarrow> (jsval \<Rightarrow> jsval \<Rightarrow> jsval) \<Rightarrow> jsval option \<Rightarrow> 'c \<Rightarrow> (jsval, 'c) call" where
  "Iterator_reduce nxt reducer initialValue this =
     (let result = parameter initialValue
      in if strict_eq result JUndefined
         then (case nxt this of
                 None \<Rightarrow> None
               | Some (Inl e, this') \<Rightarrow> Some (Inl e, this')
               | Some (Inr r, this') \<Rightarrow>
                   if r_done r then Some (Inl ReduceNoInitial, this')
                   else reduce_loop nxt reducer (r_value r) this')
         else reduce_loop nxt reducer result this)"

text \<open>The loop of \<^verbatim>\<open>someCount\<close> (lines 91-96), from the counter \<open>n\<close>.\<close>

partial_function (option) someCount_loop ::
  "'c pull \<Rightarrow> (jsval \<Rightarrow> bool) \<Rightarrow> jsval \<Rightarrow> int \<Rightarrow> 'c \<Rightarrow> (bool, 'c) call" where
  "someCount_loop nxt predicate count n this =
     (case nxt this of
        None \<Rightarrow> None
      | Some (Inl e, this') \<Rightarrow> Some (Inl e, this')
      | Some (Inr r, this') \<Rightarrow>
          if r_done r then Some (Inr False, this')
          else if predicate (r_value r)
               then (if strict_eq (JNum (n + 1)) count then Some (Inr True, this')
                     else someCount_loop nxt predicate count (n + 1) this')
               else someCount_loop nxt predicate count n this')"

declare someCount_loop.simps [code]

definition Iterator_someCount ::
  "'c pull \<Rightarrow> (jsval \<Rightarrow> bool) \<Rightarrow> jsval \<Rightarrow> 'c \<Rightarrow> (bool, 'c) call" where
  "Iterator_someCount nxt predicate count this = someCount_loop nxt predicate count 0 this"

text \<open>\<^verbatim>\<open>Array.from(this)\<close> (line 108): the values up to the first \<^verbatim>\<open>done\<close>.\<close>

partial_function (option) toArray_loop ::
  "'c pull \<Rightarrow> jsval list \<Rightarrow> 'c \<Rightarrow> (jsval list, 'c) call" where
  "toArray_loop nxt acc this =
     (case nxt this of
        None \<Rightarrow> None
      | Some (Inl e, this') \<Rightarrow> Some (Inl e, this')
      | Some (Inr r, this') \<Rightarrow>
          if r_done r then Some (Inr acc, this')
          else toArray_loop nxt (acc @ [r_value r]) this')"

declare toArray_loop.simps [code]

definition Iterator_toArray :: "'c pull \<Rightarrow> 'c \<Rightarrow> (jsval list, 'c) call" where
  "Iterator_toArray nxt this = toArray_loop nxt [] this"

section \<open>class MapIterator (lines 151-165)\<close>

record 's MapIterator = "'s Iterator" +
  mapper :: "jsval \<Rightarrow> jsval"

definition MapIterator_new :: "'s \<Rightarrow> (jsval \<Rightarrow> jsval) \<Rightarrow> 's MapIterator" where
  "MapIterator_new b f = \<lparr>base = b, mapper = f\<rparr>"

definition MapIterator_next :: "'s pull \<Rightarrow> 's MapIterator pull" where
  "MapIterator_next base_next this =
     (case base_next (base this) of
        None \<Rightarrow> None
      | Some (Inl e, b') \<Rightarrow> Some (Inl e, this\<lparr>base := b'\<rparr>)
      | Some (Inr r, b') \<Rightarrow>
          Some (Inr \<lparr>r_done = r_done r,
                     r_value = (if r_done r then JUndefined else mapper this (r_value r))\<rparr>,
                this\<lparr>base := b'\<rparr>))"

section \<open>class FilterIterator (lines 167-182)\<close>

record 's FilterIterator = "'s Iterator" +
  predicate :: "jsval \<Rightarrow> bool"

definition FilterIterator_new :: "'s \<Rightarrow> (jsval \<Rightarrow> bool) \<Rightarrow> 's FilterIterator" where
  "FilterIterator_new b p = \<lparr>base = b, predicate = p\<rparr>"

partial_function (option) FilterIterator_next ::
  "'s pull \<Rightarrow> 's FilterIterator \<Rightarrow> (iter_result, 's FilterIterator) call" where
  "FilterIterator_next base_next this =
     (case base_next (base this) of
        None \<Rightarrow> None
      | Some (Inl e, b') \<Rightarrow> Some (Inl e, this\<lparr>base := b'\<rparr>)
      | Some (Inr r, b') \<Rightarrow>
          if r_done r then Some (Inr exhausted, this\<lparr>base := b'\<rparr>)
          else if predicate this (r_value r)
               then Some (Inr (produced (r_value r)), this\<lparr>base := b'\<rparr>)
               else FilterIterator_next base_next (this\<lparr>base := b'\<rparr>))"

declare FilterIterator_next.simps [code]

section \<open>class TakeIterator (lines 250-264)\<close>

text \<open>\<^verbatim>\<open>amount\<close> is a number, here an integer of either sign; \<^verbatim>\<open>iterated\<close>
  counts the calls of \<^verbatim>\<open>next\<close>.\<close>

record 's TakeIterator = "'s Iterator" +
  amount :: int
  iterated :: int

definition TakeIterator_new :: "'s \<Rightarrow> int \<Rightarrow> 's TakeIterator" where
  "TakeIterator_new b n = \<lparr>base = b, amount = n, iterated = 0\<rparr>"

definition TakeIterator_next :: "'s pull \<Rightarrow> 's TakeIterator pull" where
  "TakeIterator_next base_next this =
     (let this1 = this\<lparr>iterated := iterated this + 1\<rparr>
      in if iterated this1 \<le> amount this1
         then (case base_next (base this1) of
                 None \<Rightarrow> None
               | Some (r, b') \<Rightarrow> Some (r, this1\<lparr>base := b'\<rparr>))
         else Some (Inr exhausted, this1))"

section \<open>class TakeWhileIterator (lines 266-283)\<close>

record 's TakeWhileIterator = "'s Iterator" +
  tw_predicate :: "jsval \<Rightarrow> bool"
  tw_done :: bool

definition TakeWhileIterator_new :: "'s \<Rightarrow> (jsval \<Rightarrow> bool) \<Rightarrow> 's TakeWhileIterator" where
  "TakeWhileIterator_new b p = \<lparr>base = b, tw_predicate = p, tw_done = False\<rparr>"

definition TakeWhileIterator_next :: "'s pull \<Rightarrow> 's TakeWhileIterator pull" where
  "TakeWhileIterator_next base_next this =
     (if tw_done this then Some (Inr exhausted, this)
      else (case base_next (base this) of
              None \<Rightarrow> None
            | Some (Inl e, b') \<Rightarrow> Some (Inl e, this\<lparr>base := b'\<rparr>)
            | Some (Inr r, b') \<Rightarrow>
                if \<not> r_done r \<and> tw_predicate this (r_value r)
                then Some (Inr r, this\<lparr>base := b'\<rparr>)
                else Some (Inr exhausted, this\<lparr>base := b', tw_done := True\<rparr>)))"

section \<open>class FlatIterator (lines 184-215)\<close>

text \<open>
  A slot of \<^verbatim>\<open>this.stack\<close>: a hole of \<^verbatim>\<open>new Array(depth + 1)\<close>, the
  \<^verbatim>\<open>null\<close> that line 198 writes, the upstream (slot 0 holds the very object that
  \<^verbatim>\<open>this.base\<close> holds, so its state is the field \<open>base\<close>), or the iterator of a
  nested value.
\<close>

datatype flat_slot = Hole | Null | FlatBase | Nested ArrayIterator

record 's FlatIterator = "'s Iterator" +
  currentDepth :: int
  stack :: "flat_slot list"

text \<open>\<^verbatim>\<open>new Array(n)\<close> throws unless \<open>n\<close> is an array length; the write to slot 0
  makes the array one long when \<open>n\<close> is 0.\<close>

definition FlatIterator_new :: "'s \<Rightarrow> int \<Rightarrow> 's FlatIterator completion" where
  "FlatIterator_new b depth =
     (if depth + 1 < 0 \<or> 4294967295 < depth + 1 then Inl InvalidArrayLength
      else Inr \<lparr>base = b, currentDepth = 0,
                stack = FlatBase # replicate (nat (depth + 1) - 1) Hole\<rparr>)"

text \<open>Lines 194-195, \<^verbatim>\<open>top = this.stack[this.currentDepth]; next = top.next()\<close>, for a
  depth that is not negative. Outside the array, and on a hole or \<^verbatim>\<open>null\<close>, the read
  of \<^verbatim>\<open>top.next\<close> throws.\<close>

definition FlatIterator_top_next :: "'s pull \<Rightarrow> 's FlatIterator pull" where
  "FlatIterator_top_next base_next this =
     (let i = nat (currentDepth this)
      in if i < length (stack this)
         then (case stack this ! i of
                 FlatBase \<Rightarrow>
                   (case base_next (base this) of
                      None \<Rightarrow> None
                    | Some (r, b') \<Rightarrow> Some (r, this\<lparr>base := b'\<rparr>))
               | Nested a \<Rightarrow>
                   (case ArrayIterator_next a of
                      (r, a') \<Rightarrow> Some (Inr r, this\<lparr>stack := (stack this)[i := Nested a']\<rparr>))
               | _ \<Rightarrow> Some (Inl NullishProperty, this))
         else Some (Inl NullishProperty, this))"

partial_function (option) FlatIterator_next ::
  "'s pull \<Rightarrow> 's FlatIterator \<Rightarrow> (iter_result, 's FlatIterator) call" where
  "FlatIterator_next base_next this =
     (if 0 \<le> currentDepth this
      then (case FlatIterator_top_next base_next this of
              None \<Rightarrow> None
            | Some (Inl e, this1) \<Rightarrow> Some (Inl e, this1)
            | Some (Inr r, this1) \<Rightarrow>
                if r_done r
                then FlatIterator_next base_next
                       (this1\<lparr>stack := (stack this1)[nat (currentDepth this1) := Null],
                              currentDepth := currentDepth this1 - 1\<rparr>)
                else if currentDepth this1 = int (length (stack this1)) - 1
                then Some (Inr r, this1)
                else (case Symbol_iterator (r_value r) of
                        Inl e \<Rightarrow> Some (Inl e, this1)
                      | Inr None \<Rightarrow> Some (Inr r, this1)
                      | Inr (Some xs) \<Rightarrow>
                          FlatIterator_next base_next
                            (this1\<lparr>currentDepth := currentDepth this1 + 1,
                                   stack := (stack this1)[nat (currentDepth this1 + 1) := Nested xs]\<rparr>)))
      else Some (Inr exhausted, this))"

declare FlatIterator_next.simps [code]

section \<open>class FlatMapIterator (lines 217-248)\<close>

record 's FlatMapIterator = "'s Iterator" +
  fm_mapper :: "jsval \<Rightarrow> jsval"
  fm_currentIterator :: "ArrayIterator option"

definition FlatMapIterator_new :: "'s \<Rightarrow> (jsval \<Rightarrow> jsval) \<Rightarrow> 's FlatMapIterator" where
  "FlatMapIterator_new b f = \<lparr>base = b, fm_mapper = f, fm_currentIterator = None\<rparr>"

text \<open>
  Lines 226-238, the block \<^verbatim>\<open>if (!this.currentIterator) { ... }\<close>: it returns from
  \<^verbatim>\<open>next\<close> (\<open>Inl\<close>, with what it returns or throws), or falls through to line 240
  with \<^verbatim>\<open>this.currentIterator\<close> set (\<open>Inr\<close>, with that iterator).
\<close>

definition FlatMapIterator_enter ::
  "'s pull \<Rightarrow> 's FlatMapIterator \<Rightarrow>
     ((iter_result completion + ArrayIterator) \<times> 's FlatMapIterator) option" where
  "FlatMapIterator_enter base_next this =
     (case fm_currentIterator this of
        Some a \<Rightarrow> Some (Inr a, this)
      | None \<Rightarrow>
          (case base_next (base this) of
             None \<Rightarrow> None
           | Some (Inl e, b') \<Rightarrow> Some (Inl (Inl e), this\<lparr>base := b'\<rparr>)
           | Some (Inr r, b') \<Rightarrow>
               if r_done r then Some (Inl (Inr r), this\<lparr>base := b'\<rparr>)
               else (let v = fm_mapper this (r_value r)
                     in case Symbol_iterator v of
                          Inl e \<Rightarrow> Some (Inl (Inl e), this\<lparr>base := b'\<rparr>)
                        | Inr None \<Rightarrow> Some (Inl (Inr (produced v)), this\<lparr>base := b'\<rparr>)
                        | Inr (Some xs) \<Rightarrow>
                            Some (Inr xs, this\<lparr>base := b', fm_currentIterator := Some xs\<rparr>))))"

text \<open>
  Line 244 is a call of \<^verbatim>\<open>next\<close> by itself, here the recursion. How deep the engine
  lets such calls nest is no part of the model: a pull that an engine ends with a RangeError
  for lack of stack, after a long run of empty sub-sequences, returns here.
\<close>

partial_function (option) FlatMapIterator_next ::
  "'s pull \<Rightarrow> 's FlatMapIterator \<Rightarrow> (iter_result, 's FlatMapIterator) call" where
  "FlatMapIterator_next base_next this =
     (case FlatMapIterator_enter base_next this of
        None \<Rightarrow> None
      | Some (Inl ret, this1) \<Rightarrow> Some (ret, this1)
      | Some (Inr a, this1) \<Rightarrow>
          (case ArrayIterator_next a of
             (r, a') \<Rightarrow>
               if r_done r
               then FlatMapIterator_next base_next (this1\<lparr>fm_currentIterator := None\<rparr>)
               else Some (Inr r, this1\<lparr>fm_currentIterator := Some a'\<rparr>)))"

declare FlatMapIterator_next.simps [code]

section \<open>class ZipIterator (lines 285-309)\<close>

record ('s, 't) ZipIterator = "'s Iterator" +
  zip_iterators :: "'t cursor list"

definition ZipIterator_new ::
  "'s \<Rightarrow> 't iterable list \<Rightarrow> ('s, 't) ZipIterator completion" where
  "ZipIterator_new b its =
     (case map_toIterator its of
        Inl e \<Rightarrow> Inl e
      | Inr cs \<Rightarrow> Inr \<lparr>base = b, zip_iterators = cs\<rparr>)"

text \<open>The loop of lines 300-306 over the cursors still to pull, with \<^verbatim>\<open>result\<close> so
  far; it gives back the cursors as the pulls left them.\<close>

fun zip_loop ::
  "'t pull \<Rightarrow> 't cursor list \<Rightarrow> jsval list \<Rightarrow> (iter_result, 't cursor list) call" where
  "zip_loop obj_next [] result = Some (Inr (produced (JArr result)), [])"
| "zip_loop obj_next (c # cs) result =
     (case cursor_next obj_next c of
        None \<Rightarrow> None
      | Some (Inl e, c') \<Rightarrow> Some (Inl e, c' # cs)
      | Some (Inr r, c') \<Rightarrow>
          if r_done r then Some (Inr r, c' # cs)
          else (case zip_loop obj_next cs (result @ [r_value r]) of
                  None \<Rightarrow> None
                | Some (ret, cs') \<Rightarrow> Some (ret, c' # cs')))"

definition ZipIterator_next :: "'s pull \<Rightarrow> 't pull \<Rightarrow> ('s, 't) ZipIterator pull" where
  "ZipIterator_next base_next obj_next this =
     (case base_next (base this) of
        None \<Rightarrow> None
      | Some (Inl e, b') \<Rightarrow> Some (Inl e, this\<lparr>base := b'\<rparr>)
      | Some (Inr r, b') \<Rightarrow>
          if r_done r then Some (Inr r, this\<lparr>base := b'\<rparr>)
          else (case zip_loop obj_next (zip_iterators this) [r_value r] of
                  None \<Rightarrow> None
                | Some (ret, cs') \<Rightarrow> Some (ret, this\<lparr>base := b', zip_iterators := cs'\<rparr>)))"

section \<open>class JoinIterator (lines 311-330)\<close>

text \<open>
  \<^verbatim>\<open>this.currentIterator\<close> is first the object that \<^verbatim>\<open>this.base\<close> holds
  (\<open>JoinBase\<close>: its state is the field \<open>base\<close>), then a cursor taken from the queue.
  \<^verbatim>\<open>this.iterators\<close> is the array iterator of the array of cursors that line 315 built:
  its state is the cursors it has still to hand out.
\<close>

datatype 't join_current = JoinBase | Queued "'t cursor"

record ('s, 't) JoinIterator = "'s Iterator" +
  join_currentIterator :: "'t join_current"
  join_iterators :: "'t cursor list"

definition JoinIterator_new ::
  "'s \<Rightarrow> 't iterable list \<Rightarrow> ('s, 't) JoinIterator completion" where
  "JoinIterator_new b its =
     (case map_toIterator its of
        Inl e \<Rightarrow> Inl e
      | Inr cs \<Rightarrow> Inr \<lparr>base = b, join_currentIterator = JoinBase, join_iterators = cs\<rparr>)"

text \<open>Line 319, \<^verbatim>\<open>this.currentIterator.next()\<close>.\<close>

definition JoinIterator_current_next ::
  "'s pull \<Rightarrow> 't pull \<Rightarrow> ('s, 't) JoinIterator pull" where
  "JoinIterator_current_next base_next obj_next this =
     (case join_currentIterator this of
        JoinBase \<Rightarrow>
          (case base_next (base this) of
             None \<Rightarrow> None
           | Some (r, b') \<Rightarrow> Some (r, this\<lparr>base := b'\<rparr>))
      | Queued c \<Rightarrow>
          (case cursor_next obj_next c of
             None \<Rightarrow> None
           | Some (r, c') \<Rightarrow> Some (r, this\<lparr>join_currentIterator := Queued c'\<rparr>)))"

partial_function (option) JoinIterator_next ::
  "'s pull \<Rightarrow> 't pull \<Rightarrow> ('s, 't) JoinIterator \<Rightarrow> (iter_result, ('s, 't) JoinIterator) call" where
  "JoinIterator_next base_next obj_next this =
     (case JoinIterator_current_next base_next obj_next this of
        None \<Rightarrow> None
      | Some (Inl e, this1) \<Rightarrow> Some (Inl e, this1)
      | Some (Inr r, this1) \<Rightarrow>
          if \<not> r_done r then Some (Inr r, this1)
          else (case join_iterators this1 of
                  [] \<Rightarrow> Some (Inr exhausted, this1)
                | c # cs \<Rightarrow>
                    JoinIterator_next base_next obj_next
                      (this1\<lparr>join_iterators := cs, join_currentIterator := Queued c\<rparr>)))"

declare JoinIterator_next.simps [code]

section \<open>Sequences as the pulls observe them\<close>

text \<open>
  \<open>drains nxt c vs c'\<close>: the cursor in state \<open>c\<close> is a finite sequence. Pulled until
  it first reports exhaustion, it produces the values \<open>vs\<close> in this order, throws
  nothing, and is left in state \<open>c'\<close>.
\<close>

inductive drains :: "'c pull \<Rightarrow> 'c \<Rightarrow> jsval list \<Rightarrow> 'c \<Rightarrow> bool"
  for nxt :: "'c pull" where
  drains_done: "nxt c = Some (Inr r, c') \<Longrightarrow> r_done r \<Longrightarrow> drains nxt c [] c'"
| drains_value: "nxt c = Some (Inr r, c1) \<Longrightarrow> \<not> r_done r \<Longrightarrow> drains nxt c1 vs c' \<Longrightarrow>
     drains nxt c (r_value r # vs) c'"

text \<open>\<open>pulls nxt c vs c'\<close>: as many pulls as \<open>vs\<close> is long produce \<open>vs\<close> and leave
  the cursor in state \<open>c'\<close>.\<close>

inductive pulls :: "'c pull \<Rightarrow> 'c \<Rightarrow> jsval list \<Rightarrow> 'c \<Rightarrow> bool"
  for nxt :: "'c pull" where
  pulls_none: "pulls nxt c [] c"
| pulls_value: "nxt c = Some (Inr r, c1) \<Longrightarrow> \<not> r_done r \<Longrightarrow> pulls nxt c1 vs c' \<Longrightarrow>
     pulls nxt c (r_value r # vs) c'"

text \<open>\<open>reads nxt c ys whole\<close>: the cursor produces \<open>ys\<close> first. When \<open>whole\<close>,
  that is all of it: it is a finite sequence and \<open>ys\<close> what it produces. Otherwise more may
  follow, without end if it is an infinite sequence.\<close>

definition reads :: "'c pull \<Rightarrow> 'c \<Rightarrow> jsval list \<Rightarrow> bool \<Rightarrow> bool" where
  "reads nxt c ys whole = (\<exists>c'. if whole then drains nxt c ys c' else pulls nxt c ys c')"

text \<open>\<open>k\<close> calls of \<^verbatim>\<open>next()\<close> in a row: what each returned or threw, and the state
  after the last.\<close>

fun calls :: "'c pull \<Rightarrow> nat \<Rightarrow> 'c \<Rightarrow> (iter_result completion list \<times> 'c) option" where
  "calls nxt 0 c = Some ([], c)"
| "calls nxt (Suc k) c =
     (case nxt c of
        None \<Rightarrow> None
      | Some (r, c1) \<Rightarrow>
          (case calls nxt k c1 of
             None \<Rightarrow> None
           | Some (rs, c') \<Rightarrow> Some (r # rs, c')))"

definition reports_exhaustion :: "iter_result completion \<Rightarrow> bool" where
  "reports_exhaustion x = (case x of Inl e \<Rightarrow> False | Inr r \<Rightarrow> r_done r)"

text \<open>From state \<open>c\<close> on, every call returns and reports exhaustion.\<close>

definition stays_exhausted :: "'c pull \<Rightarrow> 'c \<Rightarrow> bool" where
  "stays_exhausted nxt c =
     (\<forall>k. \<exists>rs c'. calls nxt k c = Some (rs, c') \<and> list_all reports_exhaustion rs)"

text \<open>Exhaustion is permanent: in whatever state the cursor reports it, it reports it on every
  later call.\<close>

definition permanent :: "'c pull \<Rightarrow> bool" where
  "permanent nxt = (\<forall>c r c'. nxt c = Some (Inr r, c') \<longrightarrow> r_done r \<longrightarrow> stays_exhausted nxt c')"

text \<open>Every call returns a result object: none throws, none runs for ever.\<close>

definition always_returns :: "'c pull \<Rightarrow> bool" where
  "always_returns nxt = (\<forall>c. \<exists>r c'. nxt c = Some (Inr r, c'))"

text \<open>A cursor that plays a script: each call takes the next entry, \<open>None\<close> for a report
  of exhaustion, and after the script it reports exhaustion. It is any cursor at all as far
  as finitely many calls can tell, with values after an exhaustion if the script says so.\<close>

type_synonym scripted = "jsval option list"

fun scripted_next :: "scripted pull" where
  "scripted_next [] = Some (Inr exhausted, [])"
| "scripted_next (None # s) = Some (Inr exhausted, s)"
| "scripted_next (Some v # s) = Some (Inr (produced v), s)"

text \<open>The rows that zipping the lists \<open>xs\<close> and \<open>yss\<close> gives: row \<open>i\<close> holds element
  \<open>i\<close> of \<open>xs\<close>, then element \<open>i\<close> of each of \<open>yss\<close> in their order, as long as
  all the lists have one.\<close>

fun zipped :: "jsval list \<Rightarrow> jsval list list \<Rightarrow> jsval list" where
  "zipped [] yss = []"
| "zipped (x # xs) yss =
     (if \<exists>ys \<in> set yss. ys = [] then []
      else JArr (x # map hd yss) # zipped xs (map tl yss))"

text \<open>What one level of flattening makes of a value: the elements of an array, the
  characters of a string, and the value itself when it is not iterable.\<close>

definition one_level :: "jsval \<Rightarrow> jsval list" where
  "one_level v = (case Symbol_iterator v of Inr (Some ys) \<Rightarrow> ys | _ \<Rightarrow> [v])"

section \<open>Facts about the observations\<close>

lemma drains_array_cursor:
  "drains (cursor_next obj_next) (ValueCursor xs) xs (ValueCursor [])"
proof (induction xs)
  case Nil
  show ?case
    by (rule drains_done [where r = exhausted]) (simp_all add: exhausted_def)
next
  case (Cons x xs)
  have "drains (cursor_next obj_next) (ValueCursor (x # xs)) (r_value (produced x) # xs) (ValueCursor [])"
    by (rule drains_value [where ?c1.0 = "ValueCursor xs"]) (simp_all add: produced_def Cons.IH)
  then show ?case by (simp add: produced_def)
qed

lemma drains_Iterator_array:
  "drains (Iterator_next obj_next) \<lparr>base = ValueCursor xs\<rparr> xs \<lparr>base = ValueCursor []\<rparr>"
proof (induction xs)
  case Nil
  show ?case
    by (rule drains_done [where r = exhausted])
       (simp_all add: exhausted_def Iterator_next_def)
next
  case (Cons x xs)
  have "drains (Iterator_next obj_next) \<lparr>base = ValueCursor (x # xs)\<rparr> (r_value (produced x) # xs)
          \<lparr>base = ValueCursor []\<rparr>"
    by (rule drains_value [where ?c1.0 = "\<lparr>base = ValueCursor xs\<rparr>"])
       (simp_all add: produced_def Iterator_next_def Cons.IH)
  then show ?case by (simp add: produced_def)
qed

lemma drains_array:
  "drains array_next \<lparr>base = ValueCursor xs\<rparr> xs \<lparr>base = ValueCursor []\<rparr>"
  unfolding array_next_def by (rule drains_Iterator_array)

lemma drains_Nil_iff: "drains nxt c [] c' = (\<exists>r. nxt c = Some (Inr r, c') \<and> r_done r)"
  by (auto elim: drains.cases intro: drains_done)

lemma drains_Cons_iff:
  "drains nxt c (v # vs) c' =
     (\<exists>r c1. nxt c = Some (Inr r, c1) \<and> \<not> r_done r \<and> r_value r = v \<and> drains nxt c1 vs c')"
  by (auto elim: drains.cases intro: drains_value)

lemma drains_same_next:
  "drains nxt c2 vs c' \<Longrightarrow> nxt c = nxt c2 \<Longrightarrow> drains nxt c vs c'"
  by (erule drains.cases) (auto intro: drains.intros)

text \<open>\<^verbatim>\<open>toArray\<close> returns what a finite sequence produces.\<close>

lemma toArray_loop_drains:
  "drains nxt this vs this' \<Longrightarrow> toArray_loop nxt acc this = Some (Inr (acc @ vs), this')"
proof (induction arbitrary: acc rule: drains.induct)
  case (drains_done c r c')
  then show ?case by (subst toArray_loop.simps) simp
next
  case (drains_value c r c1 vs c')
  then show ?case by (subst toArray_loop.simps) simp
qed

lemma toArray_drains:
  "drains nxt this vs this' \<Longrightarrow> Iterator_toArray nxt this = Some (Inr vs, this')"
  by (simp add: Iterator_toArray_def toArray_loop_drains)

section \<open>someCount\<close>

lemma someCount_loop_drains:
  "drains nxt this vs this' \<Longrightarrow> 0 \<le> n \<Longrightarrow>
   someCount_loop nxt p (JNum 0) n this = Some (Inr False, this')"
proof (induction arbitrary: n rule: drains.induct)
  case (drains_done c r c')
  then show ?case by (subst someCount_loop.simps) simp
next
  case (drains_value c r c1 vs c')
  then show ?case by (subst someCount_loop.simps) simp
qed

lemma someCount_loop_returns_false:
  "someCount_loop nxt p count n this = Some y \<Longrightarrow>
   count = JNum 0 \<longrightarrow> 0 \<le> n \<longrightarrow>
     (\<forall>b this'. y = (Inr b, this') \<longrightarrow>
        \<not> b \<and> (\<exists>c r. nxt c = Some (Inr r, this') \<and> r_done r))"
proof (induction rule: someCount_loop.raw_induct [rotated 1, consumes 1])
  case (1 f nxt p count n this y)
  show ?case
  proof (intro impI allI)
    fix b this'
    assume c: "count = JNum 0" and n: "0 \<le> n" and y: "y = (Inr b, this')"
    from "1.hyps" obtain x c1 where s: "nxt this = Some (x, c1)"
      by (cases "nxt this") auto
    show "\<not> b \<and> (\<exists>c r. nxt c = Some (Inr r, this') \<and> r_done r)"
    proof (cases x)
      case (Inl e)
      with "1.hyps" s y show ?thesis by simp
    next
      case (Inr r)
      show ?thesis
      proof (cases "r_done r")
        case True
        with "1.hyps" s Inr y have "\<not> b" "this' = c1" by simp_all
        with s Inr True show ?thesis by blast
      next
        case False
        show ?thesis
        proof (cases "p (r_value r)")
          case True
          have "\<not> strict_eq (JNum (n + 1)) count" using c n by simp
          with "1.hyps" s Inr False True
          have "f nxt p count (n + 1) c1 = Some y" by simp
          from "1.IH" [OF this] c n y show ?thesis by simp
        next
          case np: False
          with "1.hyps" s Inr False
          have "f nxt p count n c1 = Some y" by simp
          from "1.IH" [OF this] c n y show ?thesis by simp
        qed
      qed
    qed
  qed
qed

text \<open>
  C10. With a requested count of zero, \<^verbatim>\<open>someCount\<close> over a finite sequence pulls the
  cursor to its exhaustion and returns \<^verbatim>\<open>false\<close>. Over any cursor whatever, finite
  or not, what it returns is \<^verbatim>\<open>false\<close>, never \<^verbatim>\<open>true\<close>, and it returns only
  after a pull that reported exhaustion: the counter is at least 1 when it is compared with
  the count.
\<close>

theorem someCount_zero:
  "(drains nxt this vs this' \<longrightarrow>
      Iterator_someCount nxt p (JNum 0) this = Some (Inr False, this')) \<and>
   (Iterator_someCount nxt p (JNum 0) this = Some (Inr b, this'') \<longrightarrow>
      \<not> b \<and> (\<exists>c r. nxt c = Some (Inr r, this'') \<and> r_done r))"
proof (intro conjI impI)
  assume "drains nxt this vs this'"
  then show "Iterator_someCount nxt p (JNum 0) this = Some (Inr False, this')"
    by (simp add: Iterator_someCount_def someCount_loop_drains)
next
  assume "Iterator_someCount nxt p (JNum 0) this = Some (Inr b, this'')"
  then have "someCount_loop nxt p (JNum 0) 0 this = Some (Inr b, this'')"
    by (simp add: Iterator_someCount_def)
  from someCount_loop_returns_false [OF this]
  have r: "\<not> b \<and> (\<exists>c r. nxt c = Some (Inr r, this'') \<and> r_done r)"
    by simp
  then show "\<not> b" by simp
  from r show "\<exists>c r. nxt c = Some (Inr r, this'') \<and> r_done r" by simp
qed

theorem someCount_zero_witness:
  "drains array_next \<lparr>base = ValueCursor [JNum 1, JNum 2]\<rparr> [JNum 1, JNum 2] \<lparr>base = ValueCursor []\<rparr> \<and>
   Iterator_someCount array_next (\<lambda>v. True) (JNum 0) \<lparr>base = ValueCursor [JNum 1, JNum 2]\<rparr>
     = Some (Inr False, \<lparr>base = ValueCursor []\<rparr>)"
  using someCount_zero [of array_next "\<lparr>base = ValueCursor [JNum 1, JNum 2]\<rparr>" "[JNum 1, JNum 2]"
          "\<lparr>base = ValueCursor []\<rparr>" "\<lambda>v. True"]
        drains_array [of "[JNum 1, JNum 2]"]
  by simp

section \<open>reduce\<close>

lemma strict_eq_undefined: "strict_eq v JUndefined = (v = JUndefined)"
  by (cases v) simp_all

lemma reduce_loop_drains:
  "drains nxt this vs this' \<Longrightarrow>
   reduce_loop nxt f acc this = Some (Inr (foldl f acc vs), this')"
proof (induction arbitrary: acc rule: drains.induct)
  case (drains_done c r c')
  then show ?case by (subst reduce_loop.simps) simp
next
  case (drains_value c r c1 vs c')
  then show ?case by (subst reduce_loop.simps) simp
qed

text \<open>
  C6, as the claim states it, fails when the initial value is \<^verbatim>\<open>undefined\<close>:
  \<^verbatim>\<open>iter([]).reduce(reducer, undefined)\<close> throws the TypeError of line 67 and
  does not return \<^verbatim>\<open>undefined\<close>.
\<close>

theorem reduce_of_exhausted_from_undefined:
  "iter (JArr []) = Inr \<lparr>base = ValueCursor []\<rparr> \<and>
   Iterator_reduce array_next (\<lambda>a b. JArr [a, b]) (Some JUndefined) \<lparr>base = ValueCursor []\<rparr>
     = Some (Inl ReduceNoInitial, \<lparr>base = ValueCursor []\<rparr>)"
  by (simp add: iter_def Iterator_new_def Iterator_reduce_def parameter_def array_next_def
        Iterator_next_def exhausted_def)

text \<open>
  C6, amended. On a cursor whose first pull reports exhaustion, \<^verbatim>\<open>reduce\<close> without
  an initial value throws the TypeError of line 67, and \<^verbatim>\<open>reduce\<close> with an initial
  value other than \<^verbatim>\<open>undefined\<close> returns that value.
\<close>

theorem reduce_of_exhausted:
  "nxt this = Some (Inr r, this') \<longrightarrow> r_done r \<longrightarrow>
     Iterator_reduce nxt f None this = Some (Inl ReduceNoInitial, this') \<and>
     (init \<noteq> JUndefined \<longrightarrow> Iterator_reduce nxt f (Some init) this = Some (Inr init, this'))"
proof (intro impI conjI)
  assume n: "nxt this = Some (Inr r, this')" and d: "r_done r"
  show "Iterator_reduce nxt f None this = Some (Inl ReduceNoInitial, this')"
    using n d by (simp add: Iterator_reduce_def parameter_def)
  assume "init \<noteq> JUndefined"
  moreover have "reduce_loop nxt f init this = Some (Inr init, this')"
    using n d by (subst reduce_loop.simps) simp
  ultimately show "Iterator_reduce nxt f (Some init) this = Some (Inr init, this')"
    by (simp add: Iterator_reduce_def parameter_def strict_eq_undefined)
qed

theorem reduce_of_exhausted_witness:
  "array_next \<lparr>base = ValueCursor []\<rparr> = Some (Inr exhausted, \<lparr>base = ValueCursor []\<rparr>) \<and>
   r_done exhausted \<and>
   Iterator_reduce array_next (\<lambda>a b. JArr [a, b]) None \<lparr>base = ValueCursor []\<rparr>
     = Some (Inl ReduceNoInitial, \<lparr>base = ValueCursor []\<rparr>) \<and>
   JNum 7 \<noteq> JUndefined \<and>
   Iterator_reduce array_next (\<lambda>a b. JArr [a, b]) (Some (JNum 7)) \<lparr>base = ValueCursor []\<rparr>
     = Some (Inr (JNum 7), \<lparr>base = ValueCursor []\<rparr>)"
proof -
  have n: "array_next \<lparr>base = ValueCursor []\<rparr> = Some (Inr exhausted, \<lparr>base = ValueCursor []\<rparr>)"
    by (simp add: array_next_def Iterator_next_def)
  have d: "r_done exhausted"
    by (simp add: exhausted_def)
  show ?thesis
    using n d
      reduce_of_exhausted [of array_next "\<lparr>base = ValueCursor []\<rparr>" exhausted
        "\<lparr>base = ValueCursor []\<rparr>" "\<lambda>a b. JArr [a, b]" "JNum 7"]
    by simp
qed

text \<open>
  C9. \<^verbatim>\<open>reduce(reducer, undefined)\<close> is \<^verbatim>\<open>reduce(reducer)\<close>: the two calls return or
  throw the same and leave the cursor in the same state. Over a sequence that is not empty
  the accumulator starts as the first value and the reducer folds the others into it; over
  one whose first pull reports exhaustion the call throws the TypeError of line 67 and does
  not return \<^verbatim>\<open>undefined\<close>.
\<close>

theorem reduce_initial_undefined:
  "Iterator_reduce nxt f (Some JUndefined) this = Iterator_reduce nxt f None this \<and>
   (drains nxt this (v # vs) this' \<longrightarrow>
      Iterator_reduce nxt f (Some JUndefined) this = Some (Inr (foldl f v vs), this')) \<and>
   (drains nxt this [] this' \<longrightarrow>
      Iterator_reduce nxt f (Some JUndefined) this = Some (Inl ReduceNoInitial, this'))"
proof (intro conjI impI)
  show "Iterator_reduce nxt f (Some JUndefined) this = Iterator_reduce nxt f None this"
    by (simp add: Iterator_reduce_def parameter_def)
next
  assume "drains nxt this (v # vs) this'"
  then obtain r c1 where n: "nxt this = Some (Inr r, c1)" "\<not> r_done r" "r_value r = v"
    and rest: "drains nxt c1 vs this'"
    by (auto simp: drains_Cons_iff)
  show "Iterator_reduce nxt f (Some JUndefined) this = Some (Inr (foldl f v vs), this')"
    using n reduce_loop_drains [OF rest, of f v]
    by (simp add: Iterator_reduce_def parameter_def)
next
  assume "drains nxt this [] this'"
  then obtain r where "nxt this = Some (Inr r, this')" "r_done r"
    by (auto simp: drains_Nil_iff)
  then show "Iterator_reduce nxt f (Some JUndefined) this = Some (Inl ReduceNoInitial, this')"
    by (simp add: Iterator_reduce_def parameter_def)
qed

theorem reduce_initial_undefined_witness:
  "drains array_next \<lparr>base = ValueCursor [JNum 1, JNum 2, JNum 3]\<rparr> [JNum 1, JNum 2, JNum 3]
     \<lparr>base = ValueCursor []\<rparr> \<and>
   Iterator_reduce array_next (\<lambda>a b. JArr [a, b]) (Some JUndefined)
       \<lparr>base = ValueCursor [JNum 1, JNum 2, JNum 3]\<rparr>
     = Some (Inr (JArr [JArr [JNum 1, JNum 2], JNum 3]), \<lparr>base = ValueCursor []\<rparr>) \<and>
   drains array_next \<lparr>base = ValueCursor []\<rparr> [] \<lparr>base = ValueCursor []\<rparr> \<and>
   Iterator_reduce array_next (\<lambda>a b. JArr [a, b]) (Some JUndefined) \<lparr>base = ValueCursor []\<rparr>
     = Some (Inl ReduceNoInitial, \<lparr>base = ValueCursor []\<rparr>)"
proof -
  have d3: "drains array_next \<lparr>base = ValueCursor [JNum 1, JNum 2, JNum 3]\<rparr> [JNum 1, JNum 2, JNum 3]
     \<lparr>base = ValueCursor []\<rparr>"
    by (rule drains_array)
  have d0: "drains array_next \<lparr>base = ValueCursor []\<rparr> [] \<lparr>base = ValueCursor []\<rparr>"
    by (rule drains_array)
  have "Iterator_reduce array_next (\<lambda>a b. JArr [a, b]) (Some JUndefined)
       \<lparr>base = ValueCursor [JNum 1, JNum 2, JNum 3]\<rparr>
     = Some (Inr (foldl (\<lambda>a b. JArr [a, b]) (JNum 1) [JNum 2, JNum 3]), \<lparr>base = ValueCursor []\<rparr>)"
    using d3 reduce_initial_undefined [of array_next "\<lambda>a b. JArr [a, b]"
          "\<lparr>base = ValueCursor [JNum 1, JNum 2, JNum 3]\<rparr>" "JNum 1" "[JNum 2, JNum 3]"
          "\<lparr>base = ValueCursor []\<rparr>"]
    by blast
  moreover have "Iterator_reduce array_next (\<lambda>a b. JArr [a, b]) (Some JUndefined)
       \<lparr>base = ValueCursor []\<rparr> = Some (Inl ReduceNoInitial, \<lparr>base = ValueCursor []\<rparr>)"
    using d0 reduce_initial_undefined [of array_next "\<lambda>a b. JArr [a, b]"
          "\<lparr>base = ValueCursor []\<rparr>" "JNum 1" "[]" "\<lparr>base = ValueCursor []\<rparr>"]
    by blast
  ultimately show ?thesis
    using d3 d0 by simp
qed

section \<open>includes\<close>

lemma includes_drains:
  "drains nxt this vs this' \<Longrightarrow>
   \<exists>c. Iterator_includes nxt e this =
         Some (Inr (\<exists>v \<in> set vs. strict_eq v e \<or> (isNaN v \<and> isNaN e)), c) \<and>
       ((\<forall>v \<in> set vs. \<not> (strict_eq v e \<or> (isNaN v \<and> isNaN e))) \<longrightarrow> c = this')"
proof (induction rule: drains.induct)
  case (drains_done c r c')
  then show ?case by (subst Iterator_includes.simps) simp
next
  case (drains_value c r c1 vs c')
  then show ?case by (subst Iterator_includes.simps) auto
qed

text \<open>
  C2. \<^verbatim>\<open>iter(['a']).includes('b')\<close> returns \<^verbatim>\<open>true\<close>, though the two strings
  are not equal and neither is NaN: the global \<^verbatim>\<open>isNaN\<close> of line 54 converts its
  argument to a number first, and both strings convert to NaN.
\<close>

theorem includes_of_unequal_strings:
  "iter (JArr [JStr ''a'']) = Inr \<lparr>base = ValueCursor [JStr ''a'']\<rparr> \<and>
   Iterator_includes array_next (JStr ''b'') \<lparr>base = ValueCursor [JStr ''a'']\<rparr>
     = Some (Inr True, \<lparr>base = ValueCursor []\<rparr>) \<and>
   \<not> strict_eq (JStr ''a'') (JStr ''b'') \<and> JStr ''a'' \<noteq> JNaN \<and> JStr ''b'' \<noteq> JNaN"
proof -
  have i: "iter (JArr [JStr ''a'']) = Inr \<lparr>base = ValueCursor [JStr ''a'']\<rparr>"
    by (simp add: iter_def Iterator_new_def)
  have a: "string_is_nan ''a''"
    by (simp add: string_is_nan_def trim_def is_ws_def str_non_decimal_def
        str_unsigned_decimal_def is_digit_def)
  have b: "string_is_nan ''b''"
    by (simp add: string_is_nan_def trim_def is_ws_def str_non_decimal_def
        str_unsigned_decimal_def is_digit_def)
  have n: "array_next \<lparr>base = ValueCursor [JStr ''a'']\<rparr>
             = Some (Inr (produced (JStr ''a'')), \<lparr>base = ValueCursor []\<rparr>)"
    by (simp add: array_next_def Iterator_next_def)
  show ?thesis
    by (subst Iterator_includes.simps) (simp add: i n a b produced_def)
qed

section \<open>flat\<close>

text \<open>
  C4. \<^verbatim>\<open>iter([null]).flat(1).next()\<close> throws: \<^verbatim>\<open>null\<close> is a leaf that cannot be
  enumerated, it is met above the depth limit, and line 205 reads
  \<^verbatim>\<open>next.value[Symbol.iterator]\<close> of it.
\<close>

theorem flat_null_leaf_throws:
  "iter (JArr [JNull]) = Inr \<lparr>base = ValueCursor [JNull]\<rparr> \<and>
   FlatIterator_new (\<lparr>base = ValueCursor [JNull]\<rparr> :: unit cursor Iterator) 1
     = Inr \<lparr>base = \<lparr>base = ValueCursor [JNull]\<rparr>, currentDepth = 0, stack = [FlatBase, Hole]\<rparr> \<and>
   FlatIterator_next array_next
       \<lparr>base = \<lparr>base = ValueCursor [JNull]\<rparr>, currentDepth = 0, stack = [FlatBase, Hole]\<rparr>
     = Some (Inl NullishProperty,
             \<lparr>base = \<lparr>base = ValueCursor []\<rparr>, currentDepth = 0, stack = [FlatBase, Hole]\<rparr>) \<and>
   Symbol_iterator JNull = Inl NullishProperty"
proof -
  have i: "iter (JArr [JNull]) = Inr \<lparr>base = ValueCursor [JNull]\<rparr>"
    by (simp add: iter_def Iterator_new_def)
  have t: "FlatIterator_top_next array_next
       \<lparr>base = \<lparr>base = ValueCursor [JNull]\<rparr>, currentDepth = 0, stack = [FlatBase, Hole]\<rparr>
     = Some (Inr (produced JNull),
         \<lparr>base = \<lparr>base = ValueCursor []\<rparr>, currentDepth = 0, stack = [FlatBase, Hole]\<rparr>)"
    by (simp add: FlatIterator_top_next_def array_next_def Iterator_next_def)
  show ?thesis
    by (subst FlatIterator_next.simps) (simp add: i t FlatIterator_new_def produced_def)
qed

text \<open>What does hold of \<^verbatim>\<open>flat(0)\<close>: it produces the values of its upstream and
  nothing else, whatever they are.\<close>

lemma flat_exhausted:
  "currentDepth this < 0 \<Longrightarrow> FlatIterator_next base_next this = Some (Inr exhausted, this)"
  by (subst FlatIterator_next.simps) simp

lemma flat_zero_identity:
  "drains base_next b xs b' \<Longrightarrow>
   drains (FlatIterator_next base_next) \<lparr>base = b, currentDepth = 0, stack = [FlatBase]\<rparr> xs
     \<lparr>base = b', currentDepth = - 1, stack = [Null]\<rparr>"
proof (induction rule: drains.induct)
  case (drains_done c r c')
  have "FlatIterator_next base_next \<lparr>base = c, currentDepth = 0, stack = [FlatBase]\<rparr>
      = Some (Inr exhausted, \<lparr>base = c', currentDepth = - 1, stack = [Null]\<rparr>)"
    using drains_done
    by (subst FlatIterator_next.simps)
       (simp add: FlatIterator_top_next_def flat_exhausted)
  then show ?case
    by (rule drains.drains_done) (simp add: exhausted_def)
next
  case (drains_value c r c1 vs c')
  have "FlatIterator_next base_next \<lparr>base = c, currentDepth = 0, stack = [FlatBase]\<rparr>
      = Some (Inr r, \<lparr>base = c1, currentDepth = 0, stack = [FlatBase]\<rparr>)"
    using drains_value.hyps
    by (subst FlatIterator_next.simps) (simp add: FlatIterator_top_next_def)
  then show ?case
    using drains_value.hyps(2) drains_value.IH by (rule drains.drains_value)
qed

text \<open>What does hold of \<^verbatim>\<open>flat(1)\<close>: over a sequence with no \<^verbatim>\<open>undefined\<close>
  and no \<^verbatim>\<open>null\<close> among its values it flattens one level, and what it finds inside
  a value it passes on as it is.\<close>

lemma flat_one_inner:
  "drains (FlatIterator_next base_next)
     \<lparr>base = b, currentDepth = 0, stack = [FlatBase, Null]\<rparr> rest z' \<Longrightarrow>
   drains (FlatIterator_next base_next)
     \<lparr>base = b, currentDepth = 1, stack = [FlatBase, Nested ys]\<rparr> (ys @ rest) z'"
proof (induction ys)
  case Nil
  have "FlatIterator_next base_next \<lparr>base = b, currentDepth = 1, stack = [FlatBase, Nested []]\<rparr>
      = FlatIterator_next base_next \<lparr>base = b, currentDepth = 0, stack = [FlatBase, Null]\<rparr>"
    by (subst FlatIterator_next.simps) (simp add: FlatIterator_top_next_def exhausted_def)
  with Nil show ?case
    by (simp add: drains_same_next)
next
  case (Cons y ys)
  have "FlatIterator_next base_next \<lparr>base = b, currentDepth = 1, stack = [FlatBase, Nested (y # ys)]\<rparr>
      = Some (Inr (produced y), \<lparr>base = b, currentDepth = 1, stack = [FlatBase, Nested ys]\<rparr>)"
    by (subst FlatIterator_next.simps) (simp add: FlatIterator_top_next_def produced_def)
  moreover have "\<not> r_done (produced y)" by (simp add: produced_def)
  moreover note Cons.IH [OF Cons.prems]
  ultimately have "drains (FlatIterator_next base_next)
     \<lparr>base = b, currentDepth = 1, stack = [FlatBase, Nested (y # ys)]\<rparr>
     (r_value (produced y) # ys @ rest) z'"
    by (rule drains_value)
  then show ?case by (simp add: produced_def)
qed

lemma flat_one_level:
  "drains base_next b xs b' \<Longrightarrow>
   \<forall>x \<in> set xs. x \<noteq> JUndefined \<and> x \<noteq> JNull \<Longrightarrow>
   s1 = Hole \<or> s1 = Null \<Longrightarrow>
   \<exists>z'. drains (FlatIterator_next base_next)
          \<lparr>base = b, currentDepth = 0, stack = [FlatBase, s1]\<rparr>
          (concat (map one_level xs)) z'"
proof (induction arbitrary: s1 rule: drains.induct)
  case (drains_done c r c')
  have "FlatIterator_next base_next \<lparr>base = c, currentDepth = 0, stack = [FlatBase, s1]\<rparr>
      = Some (Inr exhausted, \<lparr>base = c', currentDepth = - 1, stack = [Null, s1]\<rparr>)"
    using drains_done.hyps
    by (subst FlatIterator_next.simps)
       (simp add: FlatIterator_top_next_def flat_exhausted)
  then have "drains (FlatIterator_next base_next)
      \<lparr>base = c, currentDepth = 0, stack = [FlatBase, s1]\<rparr> []
      \<lparr>base = c', currentDepth = - 1, stack = [Null, s1]\<rparr>"
    by (rule drains.drains_done) (simp add: exhausted_def)
  then show ?case by auto
next
  case (drains_value c r c1 vs c')
  have x: "r_value r \<noteq> JUndefined" "r_value r \<noteq> JNull"
    using drains_value.prems by simp_all
  have rest: "\<forall>x \<in> set vs. x \<noteq> JUndefined \<and> x \<noteq> JNull"
    using drains_value.prems by simp
  show ?case
  proof (cases "Symbol_iterator (r_value r)")
    case (Inl e)
    with x show ?thesis by (cases "r_value r") simp_all
  next
    case (Inr opt)
    show ?thesis
    proof (cases opt)
      case None
      have n: "FlatIterator_next base_next \<lparr>base = c, currentDepth = 0, stack = [FlatBase, s1]\<rparr>
          = Some (Inr r, \<lparr>base = c1, currentDepth = 0, stack = [FlatBase, s1]\<rparr>)"
        using drains_value.hyps Inr None
        by (subst FlatIterator_next.simps) (simp add: FlatIterator_top_next_def)
      obtain z' where "drains (FlatIterator_next base_next)
          \<lparr>base = c1, currentDepth = 0, stack = [FlatBase, s1]\<rparr> (concat (map one_level vs)) z'"
        using drains_value.IH [OF rest drains_value.prems(2)] by blast
      with n drains_value.hyps(2) have "drains (FlatIterator_next base_next)
          \<lparr>base = c, currentDepth = 0, stack = [FlatBase, s1]\<rparr>
          (r_value r # concat (map one_level vs)) z'"
        by (rule drains.drains_value)
      moreover have "one_level (r_value r) = [r_value r]"
        using Inr None by (simp add: one_level_def)
      ultimately show ?thesis by auto
    next
      case (Some ys)
      have n: "FlatIterator_next base_next \<lparr>base = c, currentDepth = 0, stack = [FlatBase, s1]\<rparr>
          = FlatIterator_next base_next \<lparr>base = c1, currentDepth = 1, stack = [FlatBase, Nested ys]\<rparr>"
        using drains_value.hyps Inr Some
        by (subst FlatIterator_next.simps) (simp add: FlatIterator_top_next_def)
      obtain z' where "drains (FlatIterator_next base_next)
          \<lparr>base = c1, currentDepth = 0, stack = [FlatBase, Null]\<rparr> (concat (map one_level vs)) z'"
        using drains_value.IH [OF rest, of Null] by blast
      then have "drains (FlatIterator_next base_next)
          \<lparr>base = c1, currentDepth = 1, stack = [FlatBase, Nested ys]\<rparr>
          (ys @ concat (map one_level vs)) z'"
        by (rule flat_one_inner)
      then have "drains (FlatIterator_next base_next)
          \<lparr>base = c, currentDepth = 0, stack = [FlatBase, s1]\<rparr>
          (ys @ concat (map one_level vs)) z'"
        using n by (rule drains_same_next)
      moreover have "one_level (r_value r) = ys"
        using Inr Some by (simp add: one_level_def)
      ultimately show ?thesis by auto
    qed
  qed
qed

section \<open>take\<close>

lemma take_drains:
  "drains base_next b xs b' \<Longrightarrow>
   \<exists>t'. drains (TakeIterator_next base_next) \<lparr>base = b, amount = n, iterated = i\<rparr>
          (take (nat (n - i)) xs) t'"
proof (induction arbitrary: i rule: drains.induct)
  case (drains_done c r c')
  show ?case
  proof (cases "i + 1 \<le> n")
    case True
    have "TakeIterator_next base_next \<lparr>base = c, amount = n, iterated = i\<rparr>
            = Some (Inr r, \<lparr>base = c', amount = n, iterated = i + 1\<rparr>)"
      using drains_done True by (simp add: TakeIterator_next_def Let_def)
    then show ?thesis
      using drains_done(2) by (auto intro: drains.drains_done)
  next
    case False
    have "TakeIterator_next base_next \<lparr>base = c, amount = n, iterated = i\<rparr>
            = Some (Inr exhausted, \<lparr>base = c, amount = n, iterated = i + 1\<rparr>)"
      using False by (simp add: TakeIterator_next_def Let_def)
    then have "drains (TakeIterator_next base_next) \<lparr>base = c, amount = n, iterated = i\<rparr> []
            \<lparr>base = c, amount = n, iterated = i + 1\<rparr>"
      by (rule drains.drains_done) (simp add: exhausted_def)
    then show ?thesis by auto
  qed
next
  case (drains_value c r c1 vs c')
  show ?case
  proof (cases "i + 1 \<le> n")
    case True
    have n1: "TakeIterator_next base_next \<lparr>base = c, amount = n, iterated = i\<rparr>
            = Some (Inr r, \<lparr>base = c1, amount = n, iterated = i + 1\<rparr>)"
      using drains_value.hyps True by (simp add: TakeIterator_next_def Let_def)
    obtain t' where "drains (TakeIterator_next base_next) \<lparr>base = c1, amount = n, iterated = i + 1\<rparr>
          (take (nat (n - (i + 1))) vs) t'"
      using drains_value.IH by blast
    with n1 drains_value.hyps(2)
    have "drains (TakeIterator_next base_next) \<lparr>base = c, amount = n, iterated = i\<rparr>
          (r_value r # take (nat (n - (i + 1))) vs) t'"
      by (rule drains.drains_value)
    moreover have "nat (n - i) = Suc (nat (n - (i + 1)))"
      using True by arith
    then have "take (nat (n - i)) (r_value r # vs) = r_value r # take (nat (n - (i + 1))) vs"
      by simp
    ultimately show ?thesis by auto
  next
    case False
    have "TakeIterator_next base_next \<lparr>base = c, amount = n, iterated = i\<rparr>
            = Some (Inr exhausted, \<lparr>base = c, amount = n, iterated = i + 1\<rparr>)"
      using False by (simp add: TakeIterator_next_def Let_def)
    then have "drains (TakeIterator_next base_next) \<lparr>base = c, amount = n, iterated = i\<rparr> []
            \<lparr>base = c, amount = n, iterated = i + 1\<rparr>"
      by (rule drains.drains_done) (simp add: exhausted_def)
    moreover have "take (nat (n - i)) (r_value r # vs) = []"
      using False by simp
    ultimately show ?thesis by auto
  qed
qed

lemma take_past_amount:
  "amount this \<le> iterated this \<Longrightarrow>
   calls (TakeIterator_next base_next) k this
     = Some (replicate k (Inr exhausted), this\<lparr>iterated := iterated this + int k\<rparr>)"
proof (induction k arbitrary: this)
  case 0
  show ?case by simp
next
  case (Suc k)
  have "TakeIterator_next base_next this = Some (Inr exhausted, this\<lparr>iterated := iterated this + 1\<rparr>)"
    using Suc.prems by (simp add: TakeIterator_next_def Let_def)
  moreover have "calls (TakeIterator_next base_next) k (this\<lparr>iterated := iterated this + 1\<rparr>)
     = Some (replicate k (Inr exhausted), this\<lparr>iterated := iterated this + 1 + int k\<rparr>)"
    using Suc.IH [of "this\<lparr>iterated := iterated this + 1\<rparr>"] Suc.prems by simp
  ultimately show ?case by (simp add: algebra_simps)
qed

text \<open>
  C7. Over a sequence that produces \<open>xs\<close>, \<^verbatim>\<open>take(n)\<close> produces the first
  \<open>n\<close> of \<open>xs\<close>, all of them when \<open>xs\<close> is shorter (and none when \<open>n\<close> is
  negative): \<open>min n L\<close> values for a length \<open>L\<close>. However often \<^verbatim>\<open>take(0)\<close>
  is pulled, it reports exhaustion and its upstream stays in the state it had, whatever the
  upstream's \<^verbatim>\<open>next\<close> would do.
\<close>

theorem take_yields_prefix:
  "(drains base_next b xs b' \<longrightarrow>
      (\<exists>t'. drains (TakeIterator_next base_next) (TakeIterator_new b n) (take (nat n) xs) t') \<and>
      length (take (nat n) xs) = min (nat n) (length xs)) \<and>
   calls (TakeIterator_next base_next) k (TakeIterator_new b 0)
     = Some (replicate k (Inr exhausted), \<lparr>base = b, amount = 0, iterated = int k\<rparr>)"
proof (intro conjI impI)
  assume "drains base_next b xs b'"
  from take_drains [OF this, of n 0]
  show "\<exists>t'. drains (TakeIterator_next base_next) (TakeIterator_new b n) (take (nat n) xs) t'"
    by (simp add: TakeIterator_new_def)
  show "length (take (nat n) xs) = min (nat n) (length xs)"
    by (simp add: min.commute)
next
  show "calls (TakeIterator_next base_next) k (TakeIterator_new b 0)
     = Some (replicate k (Inr exhausted), \<lparr>base = b, amount = 0, iterated = int k\<rparr>)"
    using take_past_amount [of "TakeIterator_new b 0" base_next k]
    by (simp add: TakeIterator_new_def)
qed

theorem take_yields_prefix_witness:
  "drains array_next \<lparr>base = ValueCursor [JNum 1, JNum 2, JNum 3]\<rparr> [JNum 1, JNum 2, JNum 3]
     \<lparr>base = ValueCursor []\<rparr> \<and>
   (\<exists>t'. drains (TakeIterator_next array_next)
            (TakeIterator_new \<lparr>base = ValueCursor [JNum 1, JNum 2, JNum 3]\<rparr> 2)
            [JNum 1, JNum 2] t') \<and>
   calls (TakeIterator_next array_next) 3
       (TakeIterator_new \<lparr>base = ValueCursor [JNum 1, JNum 2, JNum 3]\<rparr> 0)
     = Some ([Inr exhausted, Inr exhausted, Inr exhausted],
             \<lparr>base = \<lparr>base = ValueCursor [JNum 1, JNum 2, JNum 3]\<rparr>, amount = 0, iterated = 3\<rparr>)"
proof -
  have d: "drains array_next \<lparr>base = ValueCursor [JNum 1, JNum 2, JNum 3]\<rparr>
     [JNum 1, JNum 2, JNum 3] \<lparr>base = ValueCursor []\<rparr>"
    by (rule drains_array)
  note t = take_yields_prefix [where base_next = array_next
        and b = "\<lparr>base = ValueCursor [JNum 1, JNum 2, JNum 3]\<rparr>"
        and xs = "[JNum 1, JNum 2, JNum 3]" and b' = "\<lparr>base = ValueCursor []\<rparr>"
        and n = 2 and k = 3]
  have "\<exists>t'. drains (TakeIterator_next array_next)
            (TakeIterator_new \<lparr>base = ValueCursor [JNum 1, JNum 2, JNum 3]\<rparr> 2)
            (take (nat 2) [JNum 1, JNum 2, JNum 3]) t'"
    using d t by blast
  moreover have "take (nat 2) [JNum 1, JNum 2, JNum 3] = [JNum 1, JNum 2]"
    by (simp add: numeral_2_eq_2)
  moreover have "calls (TakeIterator_next array_next) 3
       (TakeIterator_new \<lparr>base = ValueCursor [JNum 1, JNum 2, JNum 3]\<rparr> 0)
     = Some (replicate 3 (Inr exhausted),
             \<lparr>base = \<lparr>base = ValueCursor [JNum 1, JNum 2, JNum 3]\<rparr>, amount = 0, iterated = int 3\<rparr>)"
    using t by blast
  ultimately show ?thesis
    using d by (simp add: numeral_3_eq_3)
qed

section \<open>zip\<close>

lemma length_zipped_le:
  "l \<in> set (xs # yss) \<Longrightarrow> length (zipped xs yss) \<le> length l"
proof (induction xs arbitrary: yss l)
  case Nil
  then show ?case by simp
next
  case (Cons x xs)
  show ?case
  proof (cases "\<exists>ys \<in> set yss. ys = []")
    case True
    then show ?thesis by simp
  next
    case False
    show ?thesis
    proof (cases "l = x # xs")
      case True
      have "length (zipped xs (map tl yss)) \<le> length xs"
        by (rule Cons.IH) simp
      then show ?thesis using True False by simp
    next
      case neq: False
      then have m: "l \<in> set yss" using Cons.prems by simp
      then have "l \<noteq> []" using False by blast
      have "tl l \<in> set (xs # map tl yss)" using m by simp
      then have "length (zipped xs (map tl yss)) \<le> length (tl l)"
        by (rule Cons.IH)
      then show ?thesis using False \<open>l \<noteq> []\<close> by (cases l) simp_all
    qed
  qed
qed

lemma length_zipped_attained:
  "\<exists>l \<in> set (xs # yss). length (zipped xs yss) = length l"
proof (induction xs arbitrary: yss)
  case Nil
  then show ?case by simp
next
  case (Cons x xs)
  show ?case
  proof (cases "\<exists>ys \<in> set yss. ys = []")
    case True
    then show ?thesis by auto
  next
    case False
    obtain l where l: "l \<in> set (xs # map tl yss)" "length (zipped xs (map tl yss)) = length l"
      using Cons.IH [of "map tl yss"] by blast
    show ?thesis
    proof (cases "l = xs")
      case True
      then show ?thesis using False l by simp
    next
      case neq: False
      then obtain ys where ys: "ys \<in> set yss" "l = tl ys" using l by auto
      then have "ys \<noteq> []" using False by blast
      then have "length ys = Suc (length l)" using ys by (cases ys) simp_all
      then show ?thesis using False l ys by auto
    qed
  qed
qed

lemma length_zipped:
  "length (zipped xs yss) = Min (set (map length (xs # yss)))"
proof -
  obtain l where "l \<in> set (xs # yss)" "length (zipped xs yss) = length l"
    using length_zipped_attained [of xs yss] by blast
  then have "length (zipped xs yss) \<in> set (map length (xs # yss))"
    by (metis image_eqI set_map)
  moreover have "length (zipped xs yss) \<le> n" if "n \<in> set (map length (xs # yss))" for n
  proof -
    from that obtain l where "l \<in> set (xs # yss)" "n = length l"
      by (metis image_iff set_map)
    then show ?thesis using length_zipped_le [of l xs yss] by simp
  qed
  ultimately show ?thesis
    by (intro Min_eqI [symmetric]) simp_all
qed


lemma pulls_Cons_iff:
  "pulls nxt c (v # vs) c' =
     (\<exists>r c1. nxt c = Some (Inr r, c1) \<and> \<not> r_done r \<and> r_value r = v \<and> pulls nxt c1 vs c')"
  by (auto elim: pulls.cases intro: pulls_value)

lemma reads_Nil_whole:
  "reads nxt c [] True \<Longrightarrow> \<exists>r c'. nxt c = Some (Inr r, c') \<and> r_done r"
  by (auto simp: reads_def drains_Nil_iff)

lemma reads_Cons:
  assumes "reads nxt c (v # vs) w"
  shows "\<exists>r c1. nxt c = Some (Inr r, c1) \<and> \<not> r_done r \<and> r_value r = v \<and> reads nxt c1 vs w"
proof (cases w)
  case True
  with assms obtain c' where "drains nxt c (v # vs) c'"
    by (auto simp: reads_def)
  then obtain r c1 where "nxt c = Some (Inr r, c1)" "\<not> r_done r" "r_value r = v"
    "drains nxt c1 vs c'"
    by (auto simp: drains_Cons_iff)
  with True show ?thesis by (auto simp: reads_def)
next
  case False
  with assms obtain c' where "pulls nxt c (v # vs) c'"
    by (auto simp: reads_def)
  then obtain r c1 where "nxt c = Some (Inr r, c1)" "\<not> r_done r" "r_value r = v"
    "pulls nxt c1 vs c'"
    by (auto simp: pulls_Cons_iff)
  with False show ?thesis by (auto simp: reads_def)
qed

lemma pulls_array_cursor:
  "pulls (cursor_next obj_next) (ValueCursor (xs @ ys)) xs (ValueCursor ys)"
proof (induction xs)
  case Nil
  show ?case by (simp add: pulls_none)
next
  case (Cons x xs)
  have "pulls (cursor_next obj_next) (ValueCursor ((x # xs) @ ys)) (r_value (produced x) # xs)
          (ValueCursor ys)"
    by (rule pulls_value [where ?c1.0 = "ValueCursor (xs @ ys)"])
       (simp_all add: produced_def Cons.IH)
  then show ?case by (simp add: produced_def)
qed

text \<open>The constructor converts the declared sequences one for one, in their order.\<close>

lemma map_toIterator_each:
  "list_all2 (\<lambda>it y. \<exists>c. toIterator it = Inr c \<and> R c y) its ys \<Longrightarrow>
   \<exists>cs. map_toIterator its = Inr cs \<and> list_all2 R cs ys"
proof (induction rule: list_all2_induct)
  case Nil
  show ?case by simp
next
  case (Cons it its y ys)
  from Cons.hyps(1) obtain c where c: "toIterator it = Inr c" "R c y" by blast
  from Cons.IH obtain cs where cs: "map_toIterator its = Inr cs" "list_all2 R cs ys" by blast
  have "map_toIterator (it # its) = Inr (c # cs)"
    using c(1) cs(1) by simp
  moreover have "list_all2 R (c # cs) (y # ys)"
    using c(2) cs(2) by simp
  ultimately show ?case by blast
qed

lemma zip_loop_all_produce:
  "list_all2 (\<lambda>c yw. reads (cursor_next obj_next) c (fst yw) (snd yw)) cs yws \<Longrightarrow>
   \<forall>yw \<in> set yws. fst yw \<noteq> [] \<Longrightarrow>
   \<exists>cs1. zip_loop obj_next cs result
           = Some (Inr (produced (JArr (result @ map (\<lambda>yw. hd (fst yw)) yws))), cs1) \<and>
         list_all2 (\<lambda>c yw. reads (cursor_next obj_next) c (fst yw) (snd yw)) cs1
           (map (\<lambda>yw. (tl (fst yw), snd yw)) yws)"
proof (induction arbitrary: result rule: list_all2_induct)
  case Nil
  then show ?case by simp
next
  case (Cons c cs yw yws)
  from Cons.prems obtain v vs where ys: "fst yw = v # vs" by (cases "fst yw") auto
  from Cons.hyps(1) ys have "reads (cursor_next obj_next) c (v # vs) (snd yw)" by simp
  from reads_Cons [OF this] obtain r c1 where
    n: "cursor_next obj_next c = Some (Inr r, c1)" "\<not> r_done r" "r_value r = v"
    and d: "reads (cursor_next obj_next) c1 vs (snd yw)"
    by blast
  have ne: "\<forall>yw \<in> set yws. fst yw \<noteq> []" using Cons.prems by simp
  from Cons.IH [OF ne, of "result @ [v]"] obtain cs1 where
    l: "zip_loop obj_next cs (result @ [v])
          = Some (Inr (produced (JArr ((result @ [v]) @ map (\<lambda>yw. hd (fst yw)) yws))), cs1)"
    and a: "list_all2 (\<lambda>c yw. reads (cursor_next obj_next) c (fst yw) (snd yw)) cs1
              (map (\<lambda>yw. (tl (fst yw), snd yw)) yws)"
    by blast
  have "zip_loop obj_next (c # cs) result
          = Some (Inr (produced (JArr (result @ map (\<lambda>yw. hd (fst yw)) (yw # yws)))), c1 # cs1)"
    using n l ys by simp
  moreover have "list_all2 (\<lambda>c yw. reads (cursor_next obj_next) c (fst yw) (snd yw)) (c1 # cs1)
                   (map (\<lambda>yw. (tl (fst yw), snd yw)) (yw # yws))"
    using a d ys by simp
  ultimately show ?case by blast
qed

lemma zip_loop_some_exhausted:
  "list_all2 (\<lambda>c yw. reads (cursor_next obj_next) c (fst yw) (snd yw)) cs yws \<Longrightarrow>
   \<exists>yw \<in> set yws. fst yw = [] \<Longrightarrow>
   \<forall>yw \<in> set yws. fst yw = [] \<longrightarrow> snd yw \<Longrightarrow>
   \<exists>r cs1. zip_loop obj_next cs result = Some (Inr r, cs1) \<and> r_done r"
proof (induction arbitrary: result rule: list_all2_induct)
  case Nil
  then show ?case by simp
next
  case (Cons c cs yw yws)
  show ?case
  proof (cases "fst yw")
    case Nil
    with Cons.prems(2) have "snd yw" by simp
    with Cons.hyps(1) Nil have "reads (cursor_next obj_next) c [] True" by simp
    from reads_Nil_whole [OF this] obtain r c' where
      "cursor_next obj_next c = Some (Inr r, c')" "r_done r"
      by blast
    then show ?thesis by auto
  next
    case (Cons v vs)
    with Cons.hyps(1) have "reads (cursor_next obj_next) c (v # vs) (snd yw)" by simp
    from reads_Cons [OF this] obtain r c1 where
      n: "cursor_next obj_next c = Some (Inr r, c1)" "\<not> r_done r"
      by blast
    from Cons Cons.prems have e: "\<exists>yw \<in> set yws. fst yw = []" by auto
    have w: "\<forall>yw \<in> set yws. fst yw = [] \<longrightarrow> snd yw" using Cons.prems(2) by simp
    from Cons.IH [OF e w, of "result @ [r_value r]"] obtain r' cs1 where
      "zip_loop obj_next cs (result @ [r_value r]) = Some (Inr r', cs1)" "r_done r'"
      by blast
    with n show ?thesis by auto
  qed
qed

lemma zip_reads:
  "reads base_next b xs wx \<Longrightarrow>
   list_all2 (\<lambda>c yw. reads (cursor_next obj_next) c (fst yw) (snd yw)) cs yws \<Longrightarrow>
   \<forall>yw \<in> set ((xs, wx) # yws). \<not> snd yw \<longrightarrow> length (zipped xs (map fst yws)) < length (fst yw) \<Longrightarrow>
   \<exists>z'. drains (ZipIterator_next base_next obj_next) \<lparr>base = b, zip_iterators = cs\<rparr>
          (zipped xs (map fst yws)) z'"
proof (induction xs arbitrary: b cs yws)
  case Nil
  from Nil.prems(3) have wx by simp
  with Nil.prems(1) have "reads base_next b [] True" by simp
  from reads_Nil_whole [OF this] obtain r b' where n: "base_next b = Some (Inr r, b')" "r_done r"
    by blast
  then have "ZipIterator_next base_next obj_next \<lparr>base = b, zip_iterators = cs\<rparr>
          = Some (Inr r, \<lparr>base = b', zip_iterators = cs\<rparr>)"
    by (simp add: ZipIterator_next_def)
  then have "drains (ZipIterator_next base_next obj_next) \<lparr>base = b, zip_iterators = cs\<rparr> []
          \<lparr>base = b', zip_iterators = cs\<rparr>"
    using n(2) by (rule drains.drains_done)
  then show ?case by auto
next
  case (Cons x xs)
  from reads_Cons [OF Cons.prems(1)] obtain r b1 where
    n: "base_next b = Some (Inr r, b1)" "\<not> r_done r" "r_value r = x"
    and rb: "reads base_next b1 xs wx"
    by blast
  show ?case
  proof (cases "\<exists>yw \<in> set yws. fst yw = []")
    case True
    then obtain yw0 where "yw0 \<in> set yws" "fst yw0 = []" by blast
    then have "[] \<in> set (map fst yws)" by (metis image_eqI set_map)
    then have z: "zipped (x # xs) (map fst yws) = []" by simp
    have w: "\<forall>yw \<in> set yws. fst yw = [] \<longrightarrow> snd yw"
      using Cons.prems(3) z by auto
    from zip_loop_some_exhausted [OF Cons.prems(2) True w, of "[r_value r]"]
    obtain r' cs1 where "zip_loop obj_next cs [r_value r] = Some (Inr r', cs1)" "r_done r'"
      by blast
    then have "ZipIterator_next base_next obj_next \<lparr>base = b, zip_iterators = cs\<rparr>
          = Some (Inr r', \<lparr>base = b1, zip_iterators = cs1\<rparr>)"
      using n by (simp add: ZipIterator_next_def)
    then have "drains (ZipIterator_next base_next obj_next) \<lparr>base = b, zip_iterators = cs\<rparr> []
          \<lparr>base = b1, zip_iterators = cs1\<rparr>"
      using \<open>r_done r'\<close> by (rule drains.drains_done)
    then show ?thesis using z by auto
  next
    case False
    then have ne: "\<forall>yw \<in> set yws. fst yw \<noteq> []" by blast
    let ?yws' = "map (\<lambda>yw. (tl (fst yw), snd yw)) yws"
    have tls: "map fst ?yws' = map tl (map fst yws)"
      by (simp add: comp_def)
    have hds: "map hd (map fst yws) = map (\<lambda>yw. hd (fst yw)) yws"
      by (simp add: comp_def)
    have nomem: "[] \<notin> set (map fst yws)"
    proof
      assume "[] \<in> set (map fst yws)"
      then obtain yw where "yw \<in> set yws" "fst yw = []"
        by (metis image_iff set_map)
      with ne show False by blast
    qed
    then have "zipped (x # xs) (map fst yws)
               = JArr (x # map hd (map fst yws)) # zipped xs (map tl (map fst yws))"
      by (simp del: map_map)
    then have z: "zipped (x # xs) (map fst yws)
               = JArr (x # map (\<lambda>yw. hd (fst yw)) yws) # zipped xs (map fst ?yws')"
      by (simp only: hds tls [symmetric])
    from zip_loop_all_produce [OF Cons.prems(2) ne, of "[r_value r]"] obtain cs1 where
      l: "zip_loop obj_next cs [r_value r]
            = Some (Inr (produced (JArr ([r_value r] @ map (\<lambda>yw. hd (fst yw)) yws))), cs1)"
      and a: "list_all2 (\<lambda>c yw. reads (cursor_next obj_next) c (fst yw) (snd yw)) cs1 ?yws'"
      by blast
    have nz: "ZipIterator_next base_next obj_next \<lparr>base = b, zip_iterators = cs\<rparr>
          = Some (Inr (produced (JArr (x # map (\<lambda>yw. hd (fst yw)) yws))),
                  \<lparr>base = b1, zip_iterators = cs1\<rparr>)"
      using n l by (simp add: ZipIterator_next_def)
    have nd: "\<not> r_done (produced (JArr (x # map (\<lambda>yw. hd (fst yw)) yws)))"
      by (simp add: produced_def)
    have more: "\<forall>yw \<in> set ((xs, wx) # ?yws').
                  \<not> snd yw \<longrightarrow> length (zipped xs (map fst ?yws')) < length (fst yw)"
    proof
      fix yw assume m: "yw \<in> set ((xs, wx) # ?yws')"
      show "\<not> snd yw \<longrightarrow> length (zipped xs (map fst ?yws')) < length (fst yw)"
      proof (cases "yw = (xs, wx)")
        case True
        have "\<not> wx \<longrightarrow> length (zipped (x # xs) (map fst yws)) < length (x # xs)"
          using Cons.prems(3) by simp
        with True z show ?thesis by simp
      next
        case neq: False
        with m obtain yw0 where y0: "yw0 \<in> set yws" "yw = (tl (fst yw0), snd yw0)"
          by auto
        have "\<not> snd yw0 \<longrightarrow> length (zipped (x # xs) (map fst yws)) < length (fst yw0)"
          using Cons.prems(3) y0(1) by simp
        with y0 z show ?thesis by (cases "fst yw0") auto
      qed
    qed
    from Cons.IH [OF rb a more] obtain z' where
      "drains (ZipIterator_next base_next obj_next) \<lparr>base = b1, zip_iterators = cs1\<rparr>
         (zipped xs (map fst ?yws')) z'"
      by blast
    with nz nd have "drains (ZipIterator_next base_next obj_next) \<lparr>base = b, zip_iterators = cs\<rparr>
          (r_value (produced (JArr (x # map (\<lambda>yw. hd (fst yw)) yws))) # zipped xs (map fst ?yws')) z'"
      by (rule drains.drains_value)
    then show ?thesis using z by (auto simp: produced_def)
  qed
qed

lemma zip_loop_stops:
  "list_all2 (\<lambda>p p'. \<exists>rp. cursor_next obj_next p = Some (Inr rp, p') \<and> \<not> r_done rp) pre pre' \<Longrightarrow>
   cursor_next obj_next c = Some (Inr r, c') \<Longrightarrow> r_done r \<Longrightarrow>
   zip_loop obj_next (pre @ c # post) result = Some (Inr r, pre' @ c' # post)"
proof (induction arbitrary: result rule: list_all2_induct)
  case Nil
  then show ?case by simp
next
  case (Cons p pre p' pre')
  then show ?case by auto
qed

text \<open>
  C8. Each input of zip is known by the values it produces first, the primary by \<open>xs\<close> and
  the declared sequences \<open>its\<close>, one for one and in their order, by the lists of \<open>yws\<close>:
  by all its values when it is a finite sequence, and by more of them than there will be
  rows when more may follow, as in an infinite sequence. Then the constructor succeeds and
  zip produces the rows of \<open>zipped\<close>, each an array of the primary's value and then the
  values of the declared sequences in their declared order, and as many rows as the shortest
  of the inputs is long. When the primary reports exhaustion, \<^verbatim>\<open>next\<close> returns that
  report and no secondary has been pulled; when a secondary \<open>c\<close> is the first to report it,
  \<^verbatim>\<open>next\<close> returns that report and the cursors \<open>post\<close> declared after \<open>c\<close> are as
  they were, whatever their \<^verbatim>\<open>next\<close> would do.
\<close>

theorem zip_rows_and_stops:
  "(reads base_next b xs wx \<longrightarrow>
    list_all2 (\<lambda>it yw. \<exists>c. toIterator it = Inr c \<and>
                 reads (cursor_next obj_next) c (fst yw) (snd yw)) its yws \<longrightarrow>
    (\<forall>yw \<in> set ((xs, wx) # yws).
        \<not> snd yw \<longrightarrow> length (zipped xs (map fst yws)) < length (fst yw)) \<longrightarrow>
      (\<exists>z z'. ZipIterator_new b its = Inr z \<and>
         drains (ZipIterator_next base_next obj_next) z (zipped xs (map fst yws)) z') \<and>
      length (zipped xs (map fst yws)) = Min (set (map length (xs # map fst yws)))) \<and>
   (base_next (base this) = Some (Inr r, b1) \<longrightarrow> r_done r \<longrightarrow>
      ZipIterator_next base_next obj_next this = Some (Inr r, this\<lparr>base := b1\<rparr>)) \<and>
   (base_next (base this) = Some (Inr r0, b0) \<longrightarrow> \<not> r_done r0 \<longrightarrow>
    zip_iterators this = pre @ c # post \<longrightarrow>
    list_all2 (\<lambda>p p'. \<exists>rp. cursor_next obj_next p = Some (Inr rp, p') \<and> \<not> r_done rp) pre pre' \<longrightarrow>
    cursor_next obj_next c = Some (Inr rc, c') \<longrightarrow> r_done rc \<longrightarrow>
      ZipIterator_next base_next obj_next this
        = Some (Inr rc, this\<lparr>base := b0, zip_iterators := pre' @ c' # post\<rparr>))"
proof (intro conjI impI)
  assume rb: "reads base_next b xs wx"
    and a: "list_all2 (\<lambda>it yw. \<exists>c. toIterator it = Inr c \<and>
                 reads (cursor_next obj_next) c (fst yw) (snd yw)) its yws"
    and more: "\<forall>yw \<in> set ((xs, wx) # yws).
        \<not> snd yw \<longrightarrow> length (zipped xs (map fst yws)) < length (fst yw)"
  from map_toIterator_each [OF a] obtain cs where
    cs: "map_toIterator its = Inr cs"
    and rs: "list_all2 (\<lambda>c yw. reads (cursor_next obj_next) c (fst yw) (snd yw)) cs yws"
    by blast
  have new: "ZipIterator_new b its = Inr \<lparr>base = b, zip_iterators = cs\<rparr>"
    using cs by (simp add: ZipIterator_new_def)
  from zip_reads [OF rb rs more] obtain z' where
    "drains (ZipIterator_next base_next obj_next) \<lparr>base = b, zip_iterators = cs\<rparr>
       (zipped xs (map fst yws)) z'"
    by blast
  with new show "\<exists>z z'. ZipIterator_new b its = Inr z \<and>
         drains (ZipIterator_next base_next obj_next) z (zipped xs (map fst yws)) z'"
    by blast
  show "length (zipped xs (map fst yws)) = Min (set (map length (xs # map fst yws)))"
    by (rule length_zipped)
next
  assume "base_next (base this) = Some (Inr r, b1)" "r_done r"
  then show "ZipIterator_next base_next obj_next this = Some (Inr r, this\<lparr>base := b1\<rparr>)"
    by (simp add: ZipIterator_next_def)
next
  assume n: "base_next (base this) = Some (Inr r0, b0)" "\<not> r_done r0"
    and its: "zip_iterators this = pre @ c # post"
    and pre: "list_all2 (\<lambda>p p'. \<exists>rp. cursor_next obj_next p = Some (Inr rp, p') \<and> \<not> r_done rp) pre pre'"
    and c: "cursor_next obj_next c = Some (Inr rc, c')" "r_done rc"
  have "zip_loop obj_next (pre @ c # post) [r_value r0] = Some (Inr rc, pre' @ c' # post)"
    using pre c by (rule zip_loop_stops)
  then show "ZipIterator_next base_next obj_next this
        = Some (Inr rc, this\<lparr>base := b0, zip_iterators := pre' @ c' # post\<rparr>)"
    using n its by (simp add: ZipIterator_next_def)
qed

theorem zip_rows_and_stops_witness:
  "reads array_next \<lparr>base = ValueCursor [JNum 1, JNum 2, JNum 3]\<rparr> [JNum 1, JNum 2, JNum 3] True \<and>
   (\<exists>z z'. ZipIterator_new (\<lparr>base = ValueCursor [JNum 1, JNum 2, JNum 3]\<rparr> :: unit cursor Iterator)
             [OfValue (JArr [JNum 10, JNum 20]),
              OfValue (JArr [JNum 7, JNum 8, JNum 9, JNum 9]) :: unit iterable] = Inr z \<and>
      drains (ZipIterator_next array_next no_next) z
        [JArr [JNum 1, JNum 10, JNum 7], JArr [JNum 2, JNum 20, JNum 8]] z') \<and>
   ZipIterator_next array_next no_next
       \<lparr>base = \<lparr>base = ValueCursor []\<rparr>, zip_iterators = [ValueCursor [JNum 10]]\<rparr>
     = Some (Inr exhausted,
             \<lparr>base = \<lparr>base = ValueCursor []\<rparr>, zip_iterators = [ValueCursor [JNum 10]]\<rparr>) \<and>
   ZipIterator_next array_next no_next
       \<lparr>base = \<lparr>base = ValueCursor [JNum 3]\<rparr>,
         zip_iterators = [ValueCursor [], ValueCursor [JStr ''c'']]\<rparr>
     = Some (Inr exhausted,
             \<lparr>base = \<lparr>base = ValueCursor []\<rparr>,
               zip_iterators = [ValueCursor [], ValueCursor [JStr ''c'']]\<rparr>)"
proof -
  let ?b = "\<lparr>base = ValueCursor [JNum 1, JNum 2, JNum 3]\<rparr> :: unit cursor Iterator"
  let ?its = "[OfValue (JArr [JNum 10, JNum 20]),
               OfValue (JArr [JNum 7, JNum 8, JNum 9, JNum 9])] :: unit iterable list"
  let ?yws = "[([JNum 10, JNum 20], True), ([JNum 7, JNum 8, JNum 9], False)]"
  have rb: "reads array_next ?b [JNum 1, JNum 2, JNum 3] True"
    using drains_array [of "[JNum 1, JNum 2, JNum 3]"] by (auto simp: reads_def)
  have r1: "reads (cursor_next no_next) (ValueCursor [JNum 10, JNum 20]) [JNum 10, JNum 20] True"
    using drains_array_cursor [of no_next "[JNum 10, JNum 20]"] by (auto simp: reads_def)
  have r2: "reads (cursor_next no_next) (ValueCursor [JNum 7, JNum 8, JNum 9, JNum 9])
              [JNum 7, JNum 8, JNum 9] False"
    using pulls_array_cursor [of no_next "[JNum 7, JNum 8, JNum 9]" "[JNum 9]"]
    by (auto simp: reads_def)
  have a: "list_all2 (\<lambda>it yw. \<exists>c. toIterator it = Inr c \<and>
                 reads (cursor_next no_next) c (fst yw) (snd yw)) ?its ?yws"
    using r1 r2 by simp
  have z: "zipped [JNum 1, JNum 2, JNum 3] (map fst ?yws)
             = [JArr [JNum 1, JNum 10, JNum 7], JArr [JNum 2, JNum 20, JNum 8]]"
    by simp
  have more: "\<forall>yw \<in> set (([JNum 1, JNum 2, JNum 3], True) # ?yws).
        \<not> snd yw \<longrightarrow> length (zipped [JNum 1, JNum 2, JNum 3] (map fst ?yws)) < length (fst yw)"
    unfolding z by simp
  have e: "array_next \<lparr>base = ValueCursor []\<rparr> = Some (Inr exhausted, \<lparr>base = ValueCursor []\<rparr>)"
    by (simp add: array_next_def Iterator_next_def)
  have v: "array_next \<lparr>base = ValueCursor [JNum 3]\<rparr>
             = Some (Inr (produced (JNum 3)), \<lparr>base = ValueCursor []\<rparr>)"
    by (simp add: array_next_def Iterator_next_def)
  have x: "r_done exhausted" "\<not> r_done (produced (JNum 3))"
    by (simp_all add: exhausted_def produced_def)
  have c: "cursor_next no_next (ValueCursor []) = Some (Inr exhausted, ValueCursor [])"
    by simp
  have "\<exists>z z'. ZipIterator_new ?b ?its = Inr z \<and>
      drains (ZipIterator_next array_next no_next) z
        (zipped [JNum 1, JNum 2, JNum 3] (map fst ?yws)) z'"
    using rb a more
      zip_rows_and_stops [where base_next = array_next and obj_next = no_next and b = ?b
        and xs = "[JNum 1, JNum 2, JNum 3]" and wx = True and its = ?its and yws = ?yws]
    by blast
  then have rows: "\<exists>z z'. ZipIterator_new ?b ?its = Inr z \<and>
      drains (ZipIterator_next array_next no_next) z
        [JArr [JNum 1, JNum 10, JNum 7], JArr [JNum 2, JNum 20, JNum 8]] z'"
    unfolding z .
  have stop0: "ZipIterator_next array_next no_next
       \<lparr>base = \<lparr>base = ValueCursor []\<rparr>, zip_iterators = [ValueCursor [JNum 10]]\<rparr>
     = Some (Inr exhausted,
             \<lparr>base = \<lparr>base = ValueCursor []\<rparr>, zip_iterators = [ValueCursor [JNum 10]]\<rparr>
               \<lparr>base := \<lparr>base = ValueCursor []\<rparr>\<rparr>)"
    using e x(1)
      zip_rows_and_stops [where base_next = array_next and obj_next = no_next
        and this = "\<lparr>base = \<lparr>base = ValueCursor []\<rparr>, zip_iterators = [ValueCursor [JNum 10]]\<rparr>"
        and r = exhausted and ?b1.0 = "\<lparr>base = ValueCursor []\<rparr>"]
    by simp
  have stop1: "ZipIterator_next array_next no_next
       \<lparr>base = \<lparr>base = ValueCursor [JNum 3]\<rparr>,
         zip_iterators = [ValueCursor [], ValueCursor [JStr ''c'']]\<rparr>
     = Some (Inr exhausted,
             \<lparr>base = \<lparr>base = ValueCursor [JNum 3]\<rparr>,
               zip_iterators = [ValueCursor [], ValueCursor [JStr ''c'']]\<rparr>
             \<lparr>base := \<lparr>base = ValueCursor []\<rparr>,
              zip_iterators := [] @ ValueCursor [] # [ValueCursor [JStr ''c'']]\<rparr>)"
    using v x(2) c x(1)
      zip_rows_and_stops [where base_next = array_next and obj_next = no_next
        and this = "\<lparr>base = \<lparr>base = ValueCursor [JNum 3]\<rparr>,
                     zip_iterators = [ValueCursor [], ValueCursor [JStr ''c'']]\<rparr>"
        and ?r0.0 = "produced (JNum 3)" and ?b0.0 = "\<lparr>base = ValueCursor []\<rparr>"
        and pre = "[]" and pre' = "[]" and c = "ValueCursor []" and c' = "ValueCursor []"
        and post = "[ValueCursor [JStr ''c'']]" and rc = exhausted]
    by simp
  show ?thesis
    using rb rows stop0 stop1 by simp
qed

section \<open>join\<close>

lemma map_toIterator_all:
  "map_toIterator its = Inr cs \<Longrightarrow> list_all2 (\<lambda>it c. toIterator it = Inr c) its cs"
proof (induction its arbitrary: cs)
  case Nil
  then show ?case by simp
next
  case (Cons it its)
  then show ?case by (auto split: sum.splits)
qed

lemma map_toIterator_throws:
  "toIterator it = Inl e \<Longrightarrow> it \<in> set its \<Longrightarrow> \<exists>e'. map_toIterator its = Inl e'"
proof (induction its)
  case Nil
  then show ?case by simp
next
  case (Cons a its)
  then show ?case by (auto split: sum.splits)
qed

lemma join_queued_drains:
  "list_all2 (\<lambda>c ys. \<exists>c'. drains (cursor_next obj_next) c ys c') cs yss \<Longrightarrow>
   drains (cursor_next obj_next) c ys c' \<Longrightarrow>
   \<exists>j'. drains (JoinIterator_next base_next obj_next)
          \<lparr>base = b, join_currentIterator = Queued c, join_iterators = cs\<rparr>
          (ys @ concat yss) j'"
proof (induction arbitrary: c ys c' rule: list_all2_induct)
  case Nil
  from Nil show ?case
  proof (induction rule: drains.induct)
    case (drains_done c r c')
    have "JoinIterator_next base_next obj_next
            \<lparr>base = b, join_currentIterator = Queued c, join_iterators = []\<rparr>
          = Some (Inr exhausted, \<lparr>base = b, join_currentIterator = Queued c', join_iterators = []\<rparr>)"
      using drains_done
      by (subst JoinIterator_next.simps) (simp add: JoinIterator_current_next_def)
    then have "drains (JoinIterator_next base_next obj_next)
            \<lparr>base = b, join_currentIterator = Queued c, join_iterators = []\<rparr> []
            \<lparr>base = b, join_currentIterator = Queued c', join_iterators = []\<rparr>"
      by (rule drains.drains_done) (simp add: exhausted_def)
    then show ?case by auto
  next
    case (drains_value c r c1 vs c')
    have n: "JoinIterator_next base_next obj_next
            \<lparr>base = b, join_currentIterator = Queued c, join_iterators = []\<rparr>
          = Some (Inr r, \<lparr>base = b, join_currentIterator = Queued c1, join_iterators = []\<rparr>)"
      using drains_value.hyps
      by (subst JoinIterator_next.simps) (simp add: JoinIterator_current_next_def)
    obtain j' where "drains (JoinIterator_next base_next obj_next)
          \<lparr>base = b, join_currentIterator = Queued c1, join_iterators = []\<rparr> (vs @ concat []) j'"
      using drains_value.IH by blast
    with n drains_value.hyps(2)
    have "drains (JoinIterator_next base_next obj_next)
          \<lparr>base = b, join_currentIterator = Queued c, join_iterators = []\<rparr>
          (r_value r # vs @ concat []) j'"
      by (rule drains.drains_value)
    then show ?case by auto
  qed
next
  case (Cons q cs zs yss)
  from Cons.prems show ?case
  proof (induction rule: drains.induct)
    case (drains_done c r c')
    obtain q' where q: "drains (cursor_next obj_next) q zs q'"
      using Cons.hyps(1) by blast
    obtain j' where j: "drains (JoinIterator_next base_next obj_next)
          \<lparr>base = b, join_currentIterator = Queued q, join_iterators = cs\<rparr> (zs @ concat yss) j'"
      using Cons.IH [OF q] by blast
    have "JoinIterator_next base_next obj_next
            \<lparr>base = b, join_currentIterator = Queued c, join_iterators = q # cs\<rparr>
          = JoinIterator_next base_next obj_next
            \<lparr>base = b, join_currentIterator = Queued q, join_iterators = cs\<rparr>"
      using drains_done
      by (subst JoinIterator_next.simps) (simp add: JoinIterator_current_next_def)
    with j have "drains (JoinIterator_next base_next obj_next)
          \<lparr>base = b, join_currentIterator = Queued c, join_iterators = q # cs\<rparr> (zs @ concat yss) j'"
      by (rule drains_same_next)
    then show ?case by auto
  next
    case (drains_value c r c1 vs c')
    have n: "JoinIterator_next base_next obj_next
            \<lparr>base = b, join_currentIterator = Queued c, join_iterators = q # cs\<rparr>
          = Some (Inr r, \<lparr>base = b, join_currentIterator = Queued c1, join_iterators = q # cs\<rparr>)"
      using drains_value.hyps
      by (subst JoinIterator_next.simps) (simp add: JoinIterator_current_next_def)
    obtain j' where "drains (JoinIterator_next base_next obj_next)
          \<lparr>base = b, join_currentIterator = Queued c1, join_iterators = q # cs\<rparr>
          (vs @ concat (zs # yss)) j'"
      using drains_value.IH by blast
    with n drains_value.hyps(2)
    have "drains (JoinIterator_next base_next obj_next)
          \<lparr>base = b, join_currentIterator = Queued c, join_iterators = q # cs\<rparr>
          (r_value r # vs @ concat (zs # yss)) j'"
      by (rule drains.drains_value)
    then show ?case by auto
  qed
qed

lemma join_base_drains:
  "drains base_next b xs b' \<Longrightarrow>
   list_all2 (\<lambda>c ys. \<exists>c'. drains (cursor_next obj_next) c ys c') cs yss \<Longrightarrow>
   \<exists>j'. drains (JoinIterator_next base_next obj_next)
          \<lparr>base = b, join_currentIterator = JoinBase, join_iterators = cs\<rparr>
          (xs @ concat yss) j'"
proof (induction rule: drains.induct)
  case (drains_done c r c')
  show ?case
  proof (cases cs)
    case Nil
    have "JoinIterator_next base_next obj_next
            \<lparr>base = c, join_currentIterator = JoinBase, join_iterators = cs\<rparr>
          = Some (Inr exhausted, \<lparr>base = c', join_currentIterator = JoinBase, join_iterators = []\<rparr>)"
      using drains_done.hyps Nil
      by (subst JoinIterator_next.simps) (simp add: JoinIterator_current_next_def)
    then have "drains (JoinIterator_next base_next obj_next)
            \<lparr>base = c, join_currentIterator = JoinBase, join_iterators = cs\<rparr> []
            \<lparr>base = c', join_currentIterator = JoinBase, join_iterators = []\<rparr>"
      by (rule drains.drains_done) (simp add: exhausted_def)
    then show ?thesis using Nil drains_done.prems by auto
  next
    case (Cons q qs)
    with drains_done.prems obtain zs zss where yss: "yss = zs # zss"
      and q: "\<exists>q'. drains (cursor_next obj_next) q zs q'"
      and r: "list_all2 (\<lambda>c ys. \<exists>c'. drains (cursor_next obj_next) c ys c') qs zss"
      by (auto simp: list_all2_Cons1)
    from q obtain q' where q': "drains (cursor_next obj_next) q zs q'" by blast
    obtain j' where j: "drains (JoinIterator_next base_next obj_next)
          \<lparr>base = c', join_currentIterator = Queued q, join_iterators = qs\<rparr> (zs @ concat zss) j'"
      using join_queued_drains [OF r q', of base_next c'] by blast
    have "JoinIterator_next base_next obj_next
            \<lparr>base = c, join_currentIterator = JoinBase, join_iterators = cs\<rparr>
          = JoinIterator_next base_next obj_next
            \<lparr>base = c', join_currentIterator = Queued q, join_iterators = qs\<rparr>"
      using drains_done.hyps Cons
      by (subst JoinIterator_next.simps) (simp add: JoinIterator_current_next_def)
    with j have "drains (JoinIterator_next base_next obj_next)
          \<lparr>base = c, join_currentIterator = JoinBase, join_iterators = cs\<rparr> (zs @ concat zss) j'"
      by (rule drains_same_next)
    then show ?thesis using yss by auto
  qed
next
  case (drains_value c r c1 vs c')
  have n: "JoinIterator_next base_next obj_next
            \<lparr>base = c, join_currentIterator = JoinBase, join_iterators = cs\<rparr>
          = Some (Inr r, \<lparr>base = c1, join_currentIterator = JoinBase, join_iterators = cs\<rparr>)"
    using drains_value.hyps
    by (subst JoinIterator_next.simps) (simp add: JoinIterator_current_next_def)
  obtain j' where "drains (JoinIterator_next base_next obj_next)
          \<lparr>base = c1, join_currentIterator = JoinBase, join_iterators = cs\<rparr>
          (vs @ concat yss) j'"
    using drains_value.IH [OF drains_value.prems] by blast
  with n drains_value.hyps(2)
  have "drains (JoinIterator_next base_next obj_next)
          \<lparr>base = c, join_currentIterator = JoinBase, join_iterators = cs\<rparr>
          (r_value r # vs @ concat yss) j'"
    by (rule drains.drains_value)
  then show ?case by auto
qed

text \<open>
  C3, as the claim states it, fails: the constructor converts every queued sequence, so a
  queued value that is not iterable makes \<^verbatim>\<open>iter([1]).join([2], 5)\<close> throw before
  anything is pulled, and after a construction that succeeds the queue holds cursors.
\<close>

theorem join_converts_at_construction:
  "JoinIterator_new (\<lparr>base = ValueCursor [JNum 1]\<rparr> :: unit cursor Iterator)
       [OfValue (JArr [JNum 2]), OfValue (JNum 5) :: unit iterable]
     = Inl NotIterable \<and>
   JoinIterator_new (\<lparr>base = ValueCursor [JNum 1]\<rparr> :: unit cursor Iterator)
       [OfValue (JArr [JNum 2]), OfValue (JStr ''ab'') :: unit iterable]
     = Inr \<lparr>base = \<lparr>base = ValueCursor [JNum 1]\<rparr>, join_currentIterator = JoinBase,
            join_iterators = [ValueCursor [JNum 2], ValueCursor [JStr ''a'', JStr ''b'']]\<rparr>"
  by (simp add: JoinIterator_new_def)

text \<open>
  C3, amended. The constructor converts every queued sequence into a cursor, in declared
  order: it throws if one of them cannot be converted, and otherwise the queue holds the
  cursor of each. The cursors are then consumed in declared order, each to its exhaustion
  before the next: over a primary that produces \<open>xs\<close> and queued cursors that produce
  \<open>yss\<close>, join produces \<open>xs\<close> and then each of \<open>yss\<close> in turn.
\<close>

theorem join_eager_then_in_order:
  "(it \<in> set its \<longrightarrow> toIterator it = Inl e \<longrightarrow> (\<exists>e'. JoinIterator_new b its = Inl e')) \<and>
   (JoinIterator_new b its = Inr j \<longrightarrow>
      base j = b \<and> join_currentIterator j = JoinBase \<and>
      list_all2 (\<lambda>it c. toIterator it = Inr c) its (join_iterators j) \<and>
      (drains base_next b xs b' \<longrightarrow>
       list_all2 (\<lambda>c ys. \<exists>c'. drains (cursor_next obj_next) c ys c') (join_iterators j) yss \<longrightarrow>
         (\<exists>j'. drains (JoinIterator_next base_next obj_next) j (xs @ concat yss) j')))"
proof (intro conjI impI)
  assume "it \<in> set its" "toIterator it = Inl e"
  then obtain e' where "map_toIterator its = Inl e'"
    using map_toIterator_throws by blast
  then show "\<exists>e'. JoinIterator_new b its = Inl e'"
    by (simp add: JoinIterator_new_def)
next
  assume new: "JoinIterator_new b its = Inr j"
  then obtain cs where cs: "map_toIterator its = Inr cs"
    and j: "j = \<lparr>base = b, join_currentIterator = JoinBase, join_iterators = cs\<rparr>"
    by (auto simp: JoinIterator_new_def split: sum.splits)
  show "base j = b" "join_currentIterator j = JoinBase"
    using j by simp_all
  show "list_all2 (\<lambda>it c. toIterator it = Inr c) its (join_iterators j)"
    using map_toIterator_all [OF cs] j by simp
  assume d: "drains base_next b xs b'"
    and a: "list_all2 (\<lambda>c ys. \<exists>c'. drains (cursor_next obj_next) c ys c') (join_iterators j) yss"
  from a j have "list_all2 (\<lambda>c ys. \<exists>c'. drains (cursor_next obj_next) c ys c') cs yss"
    by simp
  from join_base_drains [OF d this] j
  show "\<exists>j'. drains (JoinIterator_next base_next obj_next) j (xs @ concat yss) j'"
    by simp
qed

theorem join_eager_then_in_order_witness:
  "JoinIterator_new (\<lparr>base = ValueCursor [JNum 1, JNum 2]\<rparr> :: unit cursor Iterator)
       [OfValue (JArr []), OfValue (JArr [JNum 3]) :: unit iterable]
     = Inr \<lparr>base = \<lparr>base = ValueCursor [JNum 1, JNum 2]\<rparr>, join_currentIterator = JoinBase,
            join_iterators = [ValueCursor [], ValueCursor [JNum 3]]\<rparr> \<and>
   (\<exists>j'. drains (JoinIterator_next array_next no_next)
           \<lparr>base = \<lparr>base = ValueCursor [JNum 1, JNum 2]\<rparr>, join_currentIterator = JoinBase,
             join_iterators = [ValueCursor [], ValueCursor [JNum 3]]\<rparr>
           [JNum 1, JNum 2, JNum 3] j') \<and>
   (\<exists>e'. JoinIterator_new (\<lparr>base = ValueCursor [JNum 1]\<rparr> :: unit cursor Iterator)
           [OfValue (JArr [JNum 2]), OfValue (JNum 5) :: unit iterable] = Inl e')"
proof -
  let ?b = "\<lparr>base = ValueCursor [JNum 1, JNum 2]\<rparr> :: unit cursor Iterator"
  let ?its = "[OfValue (JArr []), OfValue (JArr [JNum 3])] :: unit iterable list"
  let ?j = "\<lparr>base = ?b, join_currentIterator = JoinBase,
             join_iterators = [ValueCursor [], ValueCursor [JNum 3] :: unit cursor]\<rparr>"
  have new: "JoinIterator_new ?b ?its = Inr ?j"
    by (simp add: JoinIterator_new_def)
  have d: "drains array_next ?b [JNum 1, JNum 2] \<lparr>base = ValueCursor []\<rparr>"
    by (rule drains_array)
  have a: "list_all2 (\<lambda>c ys. \<exists>c'. drains (cursor_next no_next) c ys c') (join_iterators ?j)
             [[], [JNum 3]]"
    using drains_array_cursor [of no_next "[]"] drains_array_cursor [of no_next "[JNum 3]"]
    by auto
  have "\<exists>j'. drains (JoinIterator_next array_next no_next) ?j
          ([JNum 1, JNum 2] @ concat [[], [JNum 3]]) j'"
    using new d a
      join_eager_then_in_order [where b = ?b and its = ?its and j = ?j
        and base_next = array_next and obj_next = no_next and xs = "[JNum 1, JNum 2]"
        and b' = "\<lparr>base = ValueCursor []\<rparr>" and yss = "[[], [JNum 3]]"]
    by blast
  moreover have "\<exists>e'. JoinIterator_new (\<lparr>base = ValueCursor [JNum 1]\<rparr> :: unit cursor Iterator)
           [OfValue (JArr [JNum 2]), OfValue (JNum 5) :: unit iterable] = Inl e'"
    using join_eager_then_in_order [where it = "OfValue (JNum 5) :: unit iterable"
        and its = "[OfValue (JArr [JNum 2]), OfValue (JNum 5)]" and e = NotIterable
        and b = "\<lparr>base = ValueCursor [JNum 1]\<rparr> :: unit cursor Iterator"]
    by simp
  ultimately show ?thesis
    using new by simp
qed

section \<open>Permanence of exhaustion\<close>

lemma stays_exhausted_step:
  assumes "stays_exhausted nxt c"
  shows "\<exists>r c1. nxt c = Some (Inr r, c1) \<and> r_done r \<and> stays_exhausted nxt c1"
proof -
  obtain rs c' where one: "calls nxt (Suc 0) c = Some (rs, c')" "list_all reports_exhaustion rs"
    using assms unfolding stays_exhausted_def by blast
  then obtain r c1 where n: "nxt c = Some (Inr r, c1)" "r_done r"
    by (auto simp: reports_exhaustion_def split: option.splits sum.splits)
  have "stays_exhausted nxt c1"
    unfolding stays_exhausted_def
  proof
    fix k
    obtain rs c' where "calls nxt (Suc k) c = Some (rs, c')" "list_all reports_exhaustion rs"
      using assms unfolding stays_exhausted_def by blast
    with n show "\<exists>rs c'. calls nxt k c1 = Some (rs, c') \<and> list_all reports_exhaustion rs"
      by (auto split: option.splits)
  qed
  with n show ?thesis by blast
qed

lemma stays_exhaustedI:
  assumes "I c"
    and step: "\<And>c. I c \<Longrightarrow> \<exists>r c1. nxt c = Some (Inr r, c1) \<and> r_done r \<and> I c1"
  shows "stays_exhausted nxt c"
  unfolding stays_exhausted_def
proof
  fix k
  from \<open>I c\<close> show "\<exists>rs c'. calls nxt k c = Some (rs, c') \<and> list_all reports_exhaustion rs"
  proof (induction k arbitrary: c)
    case 0
    show ?case by simp
  next
    case (Suc k)
    from step [OF Suc.prems] obtain r c1 where
      n: "nxt c = Some (Inr r, c1)" "r_done r" and i: "I c1" by blast
    from Suc.IH [OF i] obtain rs c' where
      "calls nxt k c1 = Some (rs, c')" "list_all reports_exhaustion rs" by blast
    moreover have "reports_exhaustion (Inr r)"
      using n by (simp add: reports_exhaustion_def)
    ultimately show ?case using n by simp
  qed
qed

lemma permanentI:
  assumes enter: "\<And>c r c'. nxt c = Some (Inr r, c') \<Longrightarrow> r_done r \<Longrightarrow> I c'"
    and step: "\<And>c. I c \<Longrightarrow> \<exists>r c1. nxt c = Some (Inr r, c1) \<and> r_done r \<and> I c1"
  shows "permanent nxt"
  unfolding permanent_def
proof (intro allI impI)
  fix c r c'
  assume "nxt c = Some (Inr r, c')" "r_done r"
  then have "I c'" by (rule enter)
  then show "stays_exhausted nxt c'" using step by (rule stays_exhaustedI)
qed

lemma permanentD:
  "permanent nxt \<Longrightarrow> nxt c = Some (Inr r, c') \<Longrightarrow> r_done r \<Longrightarrow> stays_exhausted nxt c'"
  unfolding permanent_def by blast

subsection \<open>The cursors of values and objects\<close>

lemma permanent_cursor_next:
  assumes "permanent obj_next"
  shows "permanent (cursor_next obj_next)"
proof (rule permanentI [where I = "\<lambda>c. case c of ValueCursor a \<Rightarrow> a = []
                                        | ObjectCursor t \<Rightarrow> stays_exhausted obj_next t"])
  fix c r c'
  assume n: "cursor_next obj_next c = Some (Inr r, c')" and d: "r_done r"
  show "case c' of ValueCursor a \<Rightarrow> a = [] | ObjectCursor t \<Rightarrow> stays_exhausted obj_next t"
  proof (cases c)
    case (ValueCursor a)
    with n d show ?thesis
      by (cases a) (auto simp: produced_def exhausted_def)
  next
    case (ObjectCursor t)
    with n d show ?thesis
      by (auto split: option.splits dest: permanentD [OF assms])
  qed
next
  fix c
  assume i: "case c of ValueCursor a \<Rightarrow> a = [] | ObjectCursor t \<Rightarrow> stays_exhausted obj_next t"
  show "\<exists>r c1. cursor_next obj_next c = Some (Inr r, c1) \<and> r_done r \<and>
          (case c1 of ValueCursor a \<Rightarrow> a = [] | ObjectCursor t \<Rightarrow> stays_exhausted obj_next t)"
  proof (cases c)
    case (ValueCursor a)
    with i show ?thesis by (simp add: exhausted_def)
  next
    case (ObjectCursor t)
    with i have "stays_exhausted obj_next t" by simp
    from stays_exhausted_step [OF this]
    obtain r t1 where "obj_next t = Some (Inr r, t1)" "r_done r" "stays_exhausted obj_next t1"
      by blast
    with ObjectCursor show ?thesis by simp
  qed
qed

subsection \<open>map\<close>

lemma permanent_map:
  assumes "permanent base_next"
  shows "permanent (MapIterator_next base_next)"
proof (rule permanentI [where I = "\<lambda>this. stays_exhausted base_next (base this)"])
  fix this r this'
  assume "MapIterator_next base_next this = Some (Inr r, this')" "r_done r"
  then have "\<exists>r0 b. base_next (base this) = Some (Inr r0, b) \<and> r_done r0 \<and> base this' = b"
    by (auto simp: MapIterator_next_def split: option.splits sum.splits)
  then obtain r0 b where n: "base_next (base this) = Some (Inr r0, b)" "r_done r0"
    and b: "base this' = b"
    by blast
  have "stays_exhausted base_next b"
    using assms n by (rule permanentD)
  then show "stays_exhausted base_next (base this')"
    using b by simp
next
  fix this :: "'a MapIterator"
  assume "stays_exhausted base_next (base this)"
  from stays_exhausted_step [OF this]
  obtain r b1 where "base_next (base this) = Some (Inr r, b1)" "r_done r"
    "stays_exhausted base_next b1"
    by blast
  then show "\<exists>r c1. MapIterator_next base_next this = Some (Inr r, c1) \<and> r_done r \<and>
     stays_exhausted base_next (base c1)"
    by (simp add: MapIterator_next_def)
qed

subsection \<open>take\<close>

lemma permanent_take:
  assumes "permanent base_next"
  shows "permanent (TakeIterator_next base_next)"
proof (rule permanentI [where I = "\<lambda>this. stays_exhausted base_next (base this) \<or>
                                             amount this \<le> iterated this"])
  fix this r this'
  assume "TakeIterator_next base_next this = Some (Inr r, this')" "r_done r"
  then show "stays_exhausted base_next (base this') \<or> amount this' \<le> iterated this'"
    by (auto simp: TakeIterator_next_def Let_def split: option.splits if_splits
             dest: permanentD [OF assms])
next
  fix this :: "'a TakeIterator"
  assume i: "stays_exhausted base_next (base this) \<or> amount this \<le> iterated this"
  show "\<exists>r c1. TakeIterator_next base_next this = Some (Inr r, c1) \<and> r_done r \<and>
     (stays_exhausted base_next (base c1) \<or> amount c1 \<le> iterated c1)"
  proof (cases "iterated this + 1 \<le> amount this")
    case True
    with i have "stays_exhausted base_next (base this)" by simp
    from stays_exhausted_step [OF this]
    obtain r b1 where "base_next (base this) = Some (Inr r, b1)" "r_done r"
      "stays_exhausted base_next b1"
      by blast
    with True show ?thesis by (simp add: TakeIterator_next_def Let_def)
  next
    case False
    then show ?thesis by (simp add: TakeIterator_next_def Let_def exhausted_def)
  qed
qed

subsection \<open>takeWhile\<close>

lemma permanent_takeWhile: "permanent (TakeWhileIterator_next base_next)"
proof (rule permanentI [where I = "\<lambda>this. tw_done this"])
  fix this r this'
  assume "TakeWhileIterator_next base_next this = Some (Inr r, this')" "r_done r"
  then show "tw_done this'"
    by (auto simp: TakeWhileIterator_next_def split: option.splits sum.splits if_splits)
next
  fix this :: "'a TakeWhileIterator"
  assume "tw_done this"
  then show "\<exists>r c1. TakeWhileIterator_next base_next this = Some (Inr r, c1) \<and> r_done r \<and> tw_done c1"
    by (simp add: TakeWhileIterator_next_def exhausted_def)
qed

subsection \<open>flat\<close>

lemma flat_done_below:
  "FlatIterator_next base_next this = Some y \<Longrightarrow>
   \<forall>r this'. y = (Inr r, this') \<longrightarrow> r_done r \<longrightarrow> currentDepth this' < 0"
proof (induction rule: FlatIterator_next.raw_induct [rotated 1, consumes 1])
  case (1 f base_next this y)
  then show ?case
    by (auto simp: exhausted_def split: if_splits option.splits sum.splits prod.splits)
qed

lemma permanent_flat: "permanent (FlatIterator_next base_next)"
proof (rule permanentI [where I = "\<lambda>this. currentDepth this < 0"])
  fix this r this'
  assume "FlatIterator_next base_next this = Some (Inr r, this')" "r_done r"
  then show "currentDepth this' < 0"
    using flat_done_below by blast
next
  fix this :: "'a FlatIterator"
  assume "currentDepth this < 0"
  then have "FlatIterator_next base_next this = Some (Inr exhausted, this)"
    by (subst FlatIterator_next.simps) simp
  with \<open>currentDepth this < 0\<close>
  show "\<exists>r c1. FlatIterator_next base_next this = Some (Inr r, c1) \<and> r_done r \<and> currentDepth c1 < 0"
    by (simp add: exhausted_def)
qed

subsection \<open>filter\<close>

lemma filter_done_base:
  "FilterIterator_next base_next this = Some y \<Longrightarrow>
   \<forall>r this'. y = (Inr r, this') \<longrightarrow> r_done r \<longrightarrow>
     (\<exists>b0 r0. base_next b0 = Some (Inr r0, base this') \<and> r_done r0)"
proof (induction rule: FilterIterator_next.raw_induct [rotated 1, consumes 1])
  case (1 f base_next this y)
  then show ?case
    by (auto simp: produced_def split: if_splits option.splits sum.splits prod.splits; blast)
qed

lemma permanent_filter:
  assumes "permanent base_next"
  shows "permanent (FilterIterator_next base_next)"
proof (rule permanentI [where I = "\<lambda>this. stays_exhausted base_next (base this)"])
  fix this r this'
  assume "FilterIterator_next base_next this = Some (Inr r, this')" "r_done r"
  with filter_done_base obtain b0 r0 where
    n: "base_next b0 = Some (Inr r0, base this')" "r_done r0"
    by blast
  show "stays_exhausted base_next (base this')"
    using assms n by (rule permanentD)
next
  fix this :: "'a FilterIterator"
  assume "stays_exhausted base_next (base this)"
  from stays_exhausted_step [OF this]
  obtain r b1 where n: "base_next (base this) = Some (Inr r, b1)" "r_done r"
    and s: "stays_exhausted base_next b1"
    by blast
  have "FilterIterator_next base_next this = Some (Inr exhausted, this\<lparr>base := b1\<rparr>)"
    using n by (subst FilterIterator_next.simps) simp
  with s show "\<exists>r c1. FilterIterator_next base_next this = Some (Inr r, c1) \<and> r_done r \<and>
     stays_exhausted base_next (base c1)"
    by (simp add: exhausted_def)
qed

subsection \<open>flatMap\<close>

lemma flatMap_done_base:
  "FlatMapIterator_next base_next this = Some y \<Longrightarrow>
   \<forall>r this'. y = (Inr r, this') \<longrightarrow> r_done r \<longrightarrow>
     fm_currentIterator this' = None \<and>
     (\<exists>b0 r0. base_next b0 = Some (Inr r0, base this') \<and> r_done r0)"
proof (induction rule: FlatMapIterator_next.raw_induct [rotated 1, consumes 1])
  case (1 f base_next this y)
  then show ?case
    by (auto simp: FlatMapIterator_enter_def produced_def Let_def
             split: if_splits option.splits sum.splits prod.splits; blast)
qed

lemma permanent_flatMap:
  assumes "permanent base_next"
  shows "permanent (FlatMapIterator_next base_next)"
proof (rule permanentI [where I = "\<lambda>this. fm_currentIterator this = None \<and>
                                             stays_exhausted base_next (base this)"])
  fix this r this'
  assume "FlatMapIterator_next base_next this = Some (Inr r, this')" "r_done r"
  with flatMap_done_base obtain b0 r0 where
    c: "fm_currentIterator this' = None"
    and n: "base_next b0 = Some (Inr r0, base this')" "r_done r0"
    by blast
  have "stays_exhausted base_next (base this')"
    using assms n by (rule permanentD)
  with c show "fm_currentIterator this' = None \<and> stays_exhausted base_next (base this')"
    by simp
next
  fix this :: "'a FlatMapIterator"
  assume i: "fm_currentIterator this = None \<and> stays_exhausted base_next (base this)"
  then have "stays_exhausted base_next (base this)" by simp
  from stays_exhausted_step [OF this]
  obtain r b1 where n: "base_next (base this) = Some (Inr r, b1)" "r_done r"
    and s: "stays_exhausted base_next b1"
    by blast
  have "FlatMapIterator_next base_next this = Some (Inr r, this\<lparr>base := b1\<rparr>)"
    using n i by (subst FlatMapIterator_next.simps) (simp add: FlatMapIterator_enter_def)
  with s n i show "\<exists>r c1. FlatMapIterator_next base_next this = Some (Inr r, c1) \<and> r_done r \<and>
     (fm_currentIterator c1 = None \<and> stays_exhausted base_next (base c1))"
    by simp
qed

subsection \<open>join\<close>

lemma join_done_current:
  "JoinIterator_next base_next obj_next this = Some y \<Longrightarrow>
   \<forall>r this'. y = (Inr r, this') \<longrightarrow> r_done r \<longrightarrow>
     join_iterators this' = [] \<and>
     (case join_currentIterator this' of
        JoinBase \<Rightarrow> \<exists>b0 r0. base_next b0 = Some (Inr r0, base this') \<and> r_done r0
      | Queued c' \<Rightarrow> \<exists>c0 r0. cursor_next obj_next c0 = Some (Inr r0, c') \<and> r_done r0)"
proof (induction rule: JoinIterator_next.raw_induct [rotated 1, consumes 1])
  case (1 f base_next obj_next this y)
  then show ?case
    by (auto simp: JoinIterator_current_next_def
             split: if_splits option.splits sum.splits prod.splits list.splits
                    join_current.splits; blast)
qed

lemma permanent_join:
  assumes "permanent base_next" and "permanent obj_next"
  shows "permanent (JoinIterator_next base_next obj_next)"
proof (rule permanentI [where I = "\<lambda>this. join_iterators this = [] \<and>
     (case join_currentIterator this of
        JoinBase \<Rightarrow> stays_exhausted base_next (base this)
      | Queued c \<Rightarrow> stays_exhausted (cursor_next obj_next) c)"])
  fix this r this'
  assume "JoinIterator_next base_next obj_next this = Some (Inr r, this')" "r_done r"
  with join_done_current have d: "join_iterators this' = [] \<and>
     (case join_currentIterator this' of
        JoinBase \<Rightarrow> \<exists>b0 r0. base_next b0 = Some (Inr r0, base this') \<and> r_done r0
      | Queued c' \<Rightarrow> \<exists>c0 r0. cursor_next obj_next c0 = Some (Inr r0, c') \<and> r_done r0)"
    by blast
  show "join_iterators this' = [] \<and>
     (case join_currentIterator this' of
        JoinBase \<Rightarrow> stays_exhausted base_next (base this')
      | Queued c \<Rightarrow> stays_exhausted (cursor_next obj_next) c)"
  proof (cases "join_currentIterator this'")
    case JoinBase
    with d obtain b0 r0 where "base_next b0 = Some (Inr r0, base this')" "r_done r0"
      by auto
    with assms(1) have "stays_exhausted base_next (base this')"
      by (rule permanentD)
    with d JoinBase show ?thesis by simp
  next
    case (Queued c')
    with d obtain c0 r0 where "cursor_next obj_next c0 = Some (Inr r0, c')" "r_done r0"
      by auto
    with permanent_cursor_next [OF assms(2)] have "stays_exhausted (cursor_next obj_next) c'"
      by (rule permanentD)
    with d Queued show ?thesis by simp
  qed
next
  fix this :: "('a, 'b) JoinIterator"
  assume i: "join_iterators this = [] \<and>
     (case join_currentIterator this of
        JoinBase \<Rightarrow> stays_exhausted base_next (base this)
      | Queued c \<Rightarrow> stays_exhausted (cursor_next obj_next) c)"
  show "\<exists>r c1. JoinIterator_next base_next obj_next this = Some (Inr r, c1) \<and> r_done r \<and>
     (join_iterators c1 = [] \<and>
      (case join_currentIterator c1 of
         JoinBase \<Rightarrow> stays_exhausted base_next (base c1)
       | Queued c \<Rightarrow> stays_exhausted (cursor_next obj_next) c))"
  proof (cases "join_currentIterator this")
    case JoinBase
    with i have "stays_exhausted base_next (base this)" by simp
    from stays_exhausted_step [OF this]
    obtain r b1 where n: "base_next (base this) = Some (Inr r, b1)" "r_done r"
      and s: "stays_exhausted base_next b1"
      by blast
    have "JoinIterator_next base_next obj_next this = Some (Inr exhausted, this\<lparr>base := b1\<rparr>)"
      using n i JoinBase
      by (subst JoinIterator_next.simps) (simp add: JoinIterator_current_next_def)
    with s i JoinBase show ?thesis by (simp add: exhausted_def)
  next
    case (Queued c)
    with i have "stays_exhausted (cursor_next obj_next) c" by simp
    from stays_exhausted_step [OF this]
    obtain r c1 where n: "cursor_next obj_next c = Some (Inr r, c1)" "r_done r"
      and s: "stays_exhausted (cursor_next obj_next) c1"
      by blast
    have "JoinIterator_next base_next obj_next this
            = Some (Inr exhausted, this\<lparr>join_currentIterator := Queued c1\<rparr>)"
      using n i Queued
      by (subst JoinIterator_next.simps) (simp add: JoinIterator_current_next_def)
    with s i show ?thesis by (simp add: exhausted_def)
  qed
qed

subsection \<open>zip\<close>

lemma always_returns_cursor_next:
  assumes "always_returns obj_next"
  shows "always_returns (cursor_next obj_next)"
  unfolding always_returns_def
proof
  fix c
  show "\<exists>r c'. cursor_next obj_next c = Some (Inr r, c')"
  proof (cases c)
    case (ValueCursor a)
    then show ?thesis by (cases a) simp_all
  next
    case (ObjectCursor t)
    from assms obtain r t' where "obj_next t = Some (Inr r, t')"
      unfolding always_returns_def by blast
    with ObjectCursor show ?thesis by simp
  qed
qed

lemma zip_loop_done_member:
  "zip_loop obj_next cs result = Some (Inr r, cs') \<Longrightarrow> r_done r \<Longrightarrow>
   \<exists>c c'. c' \<in> set cs' \<and> cursor_next obj_next c = Some (Inr r, c')"
proof (induction cs arbitrary: result cs')
  case Nil
  then show ?case by (auto simp: produced_def)
next
  case (Cons a cs)
  show ?case
  proof (cases "cursor_next obj_next a")
    case None
    with Cons.prems show ?thesis by simp
  next
    case (Some p)
    obtain x a' where p: "p = (x, a')" by (cases p)
    show ?thesis
    proof (cases x)
      case (Inl e)
      with Cons.prems Some p show ?thesis by simp
    next
      case (Inr ra)
      show ?thesis
      proof (cases "r_done ra")
        case True
        with Cons.prems Some p Inr have "r = ra" "cs' = a' # cs" by simp_all
        with Some p Inr show ?thesis by auto
      next
        case False
        with Cons.prems(1) Some p Inr obtain cs1 where
          l: "zip_loop obj_next cs (result @ [r_value ra]) = Some (Inr r, cs1)"
          and c: "cs' = a' # cs1"
          by (auto split: option.splits)
        from Cons.IH [OF l Cons.prems(2)] c show ?thesis by auto
      qed
    qed
  qed
qed

lemma zip_loop_stays:
  assumes perm: "permanent (cursor_next obj_next)"
    and ret: "always_returns (cursor_next obj_next)"
  shows "\<exists>c \<in> set cs. stays_exhausted (cursor_next obj_next) c \<Longrightarrow>
   \<exists>r cs'. zip_loop obj_next cs result = Some (Inr r, cs') \<and> r_done r \<and>
     (\<exists>c' \<in> set cs'. stays_exhausted (cursor_next obj_next) c')"
proof (induction cs arbitrary: result)
  case Nil
  then show ?case by simp
next
  case (Cons a cs)
  from ret obtain ra a' where a: "cursor_next obj_next a = Some (Inr ra, a')"
    unfolding always_returns_def by blast
  show ?case
  proof (cases "r_done ra")
    case True
    from perm a True have "stays_exhausted (cursor_next obj_next) a'"
      by (rule permanentD)
    with a True show ?thesis by simp
  next
    case False
    have "\<not> stays_exhausted (cursor_next obj_next) a"
    proof
      assume "stays_exhausted (cursor_next obj_next) a"
      from stays_exhausted_step [OF this] a False show False by auto
    qed
    with Cons.prems have "\<exists>c \<in> set cs. stays_exhausted (cursor_next obj_next) c"
      by auto
    from Cons.IH [OF this, of "result @ [r_value ra]"]
    obtain r cs1 where "zip_loop obj_next cs (result @ [r_value ra]) = Some (Inr r, cs1)"
      "r_done r" "\<exists>c' \<in> set cs1. stays_exhausted (cursor_next obj_next) c'"
      by blast
    with a False show ?thesis by auto
  qed
qed

lemma permanent_zip:
  assumes pb: "permanent base_next" and po: "permanent obj_next"
    and rb: "always_returns base_next" and ro: "always_returns obj_next"
  shows "permanent (ZipIterator_next base_next obj_next)"
proof (rule permanentI [where I = "\<lambda>this. stays_exhausted base_next (base this) \<or>
     (\<exists>c \<in> set (zip_iterators this). stays_exhausted (cursor_next obj_next) c)"])
  fix this r this'
  assume z: "ZipIterator_next base_next obj_next this = Some (Inr r, this')" and d: "r_done r"
  obtain r0 b0 where n: "base_next (base this) = Some (Inr r0, b0)"
    using rb unfolding always_returns_def by blast
  show "stays_exhausted base_next (base this') \<or>
     (\<exists>c \<in> set (zip_iterators this'). stays_exhausted (cursor_next obj_next) c)"
  proof (cases "r_done r0")
    case True
    with z n have "base this' = b0" by (auto simp: ZipIterator_next_def)
    moreover from pb n True have "stays_exhausted base_next b0" by (rule permanentD)
    ultimately show ?thesis by simp
  next
    case False
    with z n obtain cs' where
      l: "zip_loop obj_next (zip_iterators this) [r_value r0] = Some (Inr r, cs')"
      and c: "zip_iterators this' = cs'"
      by (auto simp: ZipIterator_next_def split: option.splits)
    from zip_loop_done_member [OF l d] obtain c0 c' where
      m: "c' \<in> set cs'" and "cursor_next obj_next c0 = Some (Inr r, c')"
      by blast
    with permanent_cursor_next [OF po] d have "stays_exhausted (cursor_next obj_next) c'"
      by (auto dest: permanentD)
    with m c show ?thesis by auto
  qed
next
  fix this :: "('a, 'b) ZipIterator"
  assume i: "stays_exhausted base_next (base this) \<or>
     (\<exists>c \<in> set (zip_iterators this). stays_exhausted (cursor_next obj_next) c)"
  obtain r0 b0 where n: "base_next (base this) = Some (Inr r0, b0)"
    using rb unfolding always_returns_def by blast
  show "\<exists>r c1. ZipIterator_next base_next obj_next this = Some (Inr r, c1) \<and> r_done r \<and>
     (stays_exhausted base_next (base c1) \<or>
      (\<exists>c \<in> set (zip_iterators c1). stays_exhausted (cursor_next obj_next) c))"
  proof (cases "r_done r0")
    case True
    from pb n True have "stays_exhausted base_next b0" by (rule permanentD)
    with n True show ?thesis by (simp add: ZipIterator_next_def)
  next
    case False
    have "\<not> stays_exhausted base_next (base this)"
    proof
      assume "stays_exhausted base_next (base this)"
      from stays_exhausted_step [OF this] n False show False by auto
    qed
    with i have "\<exists>c \<in> set (zip_iterators this). stays_exhausted (cursor_next obj_next) c"
      by simp
    from zip_loop_stays [OF permanent_cursor_next [OF po] always_returns_cursor_next [OF ro] this,
        of "[r_value r0]"]
    obtain r cs' where "zip_loop obj_next (zip_iterators this) [r_value r0] = Some (Inr r, cs')"
      "r_done r" "\<exists>c' \<in> set cs'. stays_exhausted (cursor_next obj_next) c'"
      by blast
    with n False show ?thesis by (simp add: ZipIterator_next_def)
  qed
qed

subsection \<open>Cursors over values\<close>

lemma permanent_no_next: "permanent no_next"
  by (rule permanentI [where I = "\<lambda>u. True"]) (simp_all add: no_next_def exhausted_def)

lemma always_returns_no_next: "always_returns no_next"
  by (simp add: always_returns_def no_next_def)

lemma permanent_Iterator_next:
  assumes "permanent obj_next"
  shows "permanent (Iterator_next obj_next)"
proof (rule permanentI [where I = "\<lambda>this. stays_exhausted (cursor_next obj_next) (base this)"])
  fix this :: "'a cursor Iterator" and r this'
  assume "Iterator_next obj_next this = Some (Inr r, this')" "r_done r"
  then have "\<exists>b. cursor_next obj_next (base this) = Some (Inr r, b) \<and> base this' = b"
    by (auto simp: Iterator_next_def split: option.splits)
  then obtain b where n: "cursor_next obj_next (base this) = Some (Inr r, b)"
    and b: "base this' = b"
    by blast
  have "stays_exhausted (cursor_next obj_next) b"
    using permanent_cursor_next [OF assms] n \<open>r_done r\<close> by (rule permanentD)
  then show "stays_exhausted (cursor_next obj_next) (base this')"
    using b by simp
next
  fix this :: "'a cursor Iterator"
  assume "stays_exhausted (cursor_next obj_next) (base this)"
  from stays_exhausted_step [OF this]
  obtain r b1 where "cursor_next obj_next (base this) = Some (Inr r, b1)" "r_done r"
    "stays_exhausted (cursor_next obj_next) b1"
    by blast
  then show "\<exists>r c1. Iterator_next obj_next this = Some (Inr r, c1) \<and> r_done r \<and>
     stays_exhausted (cursor_next obj_next) (base c1)"
    by (simp add: Iterator_next_def)
qed

lemma always_returns_Iterator_next:
  assumes "always_returns obj_next"
  shows "always_returns (Iterator_next obj_next)"
  unfolding always_returns_def
proof
  fix this :: "'a cursor Iterator"
  from always_returns_cursor_next [OF assms]
  obtain r b where "cursor_next obj_next (base this) = Some (Inr r, b)"
    unfolding always_returns_def by blast
  then show "\<exists>r c'. Iterator_next obj_next this = Some (Inr r, c')"
    by (simp add: Iterator_next_def)
qed

lemma permanent_array_next: "permanent array_next"
  unfolding array_next_def by (rule permanent_Iterator_next) (rule permanent_no_next)

lemma always_returns_array_next: "always_returns array_next"
  unfolding array_next_def by (rule always_returns_Iterator_next) (rule always_returns_no_next)

text \<open>
  C1, as the claim states it, fails. The upstream reports exhaustion on its first call and
  produces 1 on its second; so do \<^verbatim>\<open>map\<close>, \<^verbatim>\<open>filter\<close>, \<^verbatim>\<open>flatMap\<close>,
  \<^verbatim>\<open>take(5)\<close>, \<^verbatim>\<open>zip()\<close> and \<^verbatim>\<open>join()\<close> over it, each of which asks the
  upstream again on every call.
\<close>

theorem adaptors_pass_on_values_after_exhaustion:
  "map_option fst (calls scripted_next 2 [None, Some (JNum 1)])
     = Some [Inr exhausted, Inr (produced (JNum 1))] \<and>
   map_option fst (calls (MapIterator_next scripted_next) 2
       (MapIterator_new [None, Some (JNum 1)] (\<lambda>v. v)))
     = Some [Inr exhausted, Inr (produced (JNum 1))] \<and>
   map_option fst (calls (FilterIterator_next scripted_next) 2
       (FilterIterator_new [None, Some (JNum 1)] (\<lambda>v. True)))
     = Some [Inr exhausted, Inr (produced (JNum 1))] \<and>
   map_option fst (calls (FlatMapIterator_next scripted_next) 2
       (FlatMapIterator_new [None, Some (JNum 1)] (\<lambda>v. v)))
     = Some [Inr exhausted, Inr (produced (JNum 1))] \<and>
   map_option fst (calls (TakeIterator_next scripted_next) 2
       (TakeIterator_new [None, Some (JNum 1)] 5))
     = Some [Inr exhausted, Inr (produced (JNum 1))] \<and>
   map_option fst (calls (ZipIterator_next scripted_next no_next) 2
       \<lparr>base = [None, Some (JNum 1)], zip_iterators = []\<rparr>)
     = Some [Inr exhausted, Inr (produced (JArr [JNum 1]))] \<and>
   map_option fst (calls (JoinIterator_next scripted_next no_next) 2
       \<lparr>base = [None, Some (JNum 1)], join_currentIterator = JoinBase, join_iterators = []\<rparr>)
     = Some [Inr exhausted, Inr (produced (JNum 1))]"
  by code_simp

text \<open>
  C1, amended. \<^verbatim>\<open>flat\<close> and \<^verbatim>\<open>takeWhile\<close> keep their own record of exhaustion:
  over every upstream cursor, once their \<^verbatim>\<open>next\<close> has reported exhaustion every later
  call reports it. \<^verbatim>\<open>map\<close>, \<^verbatim>\<open>filter\<close>, \<^verbatim>\<open>flatMap\<close>, \<^verbatim>\<open>take\<close> and
  \<^verbatim>\<open>join\<close> do so when the exhaustion of each of their upstream cursors is permanent,
  and \<^verbatim>\<open>zip\<close> when moreover every call of its upstream cursors returns a result.
\<close>

theorem adaptors_keep_exhaustion:
  "permanent (FlatIterator_next base_next) \<and>
   permanent (TakeWhileIterator_next base_next) \<and>
   (permanent base_next \<longrightarrow>
      permanent (MapIterator_next base_next) \<and>
      permanent (FilterIterator_next base_next) \<and>
      permanent (FlatMapIterator_next base_next) \<and>
      permanent (TakeIterator_next base_next) \<and>
      (permanent obj_next \<longrightarrow>
         permanent (JoinIterator_next base_next obj_next) \<and>
         (always_returns base_next \<longrightarrow> always_returns obj_next \<longrightarrow>
            permanent (ZipIterator_next base_next obj_next))))"
  by (intro conjI impI permanent_flat permanent_takeWhile permanent_map permanent_filter
        permanent_flatMap permanent_take permanent_join permanent_zip)

theorem adaptors_keep_exhaustion_witness:
  "permanent array_next \<and> permanent no_next \<and>
   always_returns array_next \<and> always_returns no_next \<and>
   permanent (FlatIterator_next array_next) \<and>
   permanent (TakeWhileIterator_next array_next) \<and>
   permanent (MapIterator_next array_next) \<and>
   permanent (FilterIterator_next array_next) \<and>
   permanent (FlatMapIterator_next array_next) \<and>
   permanent (TakeIterator_next array_next) \<and>
   permanent (JoinIterator_next array_next no_next) \<and>
   permanent (ZipIterator_next array_next no_next)"
  using adaptors_keep_exhaustion [of array_next no_next]
    permanent_array_next permanent_no_next always_returns_array_next always_returns_no_next
  by simp

end
